theory Spec2Isabelle
  imports Main "HOL-Library.Word"
begin

section \<open>JavaScript values used by the routes\<close>

text \<open>
  A JavaScript number is a double. The tile route only ever holds integers and \<open>NaN\<close> in
  its numbers (the results of \<open>parseInt\<close>, of \<open>1 << z\<close> and of subtracting them), so a
  number of that route is modelled as \<open>NaN\<close> or an integer. Every integer of magnitude up to
  \<open>2 ^ 53\<close> is a double and is printed in plain decimal; \<open>parseInt\<close> rounds a longer run of
  digits, which this model does not show, so it is exact for every segment whose digits stay
  below \<open>2 ^ 53\<close>. The numbers of the JSON documents are modelled in full further below.
\<close>

datatype number = NaN | Fin int

text \<open>Subtraction of numbers: \<open>NaN\<close> is absorbing.\<close>

fun minus_number :: "number \<Rightarrow> number \<Rightarrow> number" where
  "minus_number (Fin a) (Fin b) = Fin (a - b)"
| "minus_number _ _ = NaN"

text \<open>
  \<open>1 << z\<close>: the right operand goes through \<open>ToUint32\<close> (\<open>NaN\<close> becomes 0, an integer is
  taken modulo \<open>2 ^ 32\<close>), the shift count is its low five bits, and the result is the
  shifted left operand read as a signed 32-bit integer.
\<close>

definition ToUint32 :: "number \<Rightarrow> int" where
  "ToUint32 z = (case z of NaN \<Rightarrow> 0 | Fin n \<Rightarrow> n mod 2 ^ 32)"

definition shl1 :: "number \<Rightarrow> number" where
  "shl1 z = Fin (sint (push_bit (nat (ToUint32 z mod 32)) (1 :: 32 word)))"

text \<open>Characters: a string is a sequence of code units below 256. The white space that
  \<open>parseInt\<close> and \<open>trim\<close> skip is, among these, tab, line feed, vertical tab, form feed,
  carriage return, space and the no-break space (code 160). Then the decimal digits.\<close>

definition isWhiteSpace :: "char \<Rightarrow> bool" where
  "isWhiteSpace c = (of_char c \<in> {9, 10, 11, 12, 13, 32, 160 :: nat})"

definition isDigit :: "char \<Rightarrow> bool" where
  "isDigit c = (48 \<le> (of_char c :: int) \<and> (of_char c :: int) \<le> 57)"

definition digitValue :: "char \<Rightarrow> int" where
  "digitValue c = of_char c - 48"

text \<open>
  \<open>parseInt(s, 10)\<close>: leading white space is skipped, one sign is read, then the longest
  run of decimal digits; no digit at all gives \<open>NaN\<close>, and anything after the digits is
  ignored. It never throws.
\<close>

definition parseInt :: "string \<Rightarrow> number" where
  "parseInt s =
     (let t = dropWhile isWhiteSpace s;
          neg = (t \<noteq> [] \<and> hd t = CHR ''-'');
          u = (if t \<noteq> [] \<and> (hd t = CHR ''+'' \<or> hd t = CHR ''-'') then tl t else t);
          ds = takeWhile isDigit u
      in if ds = [] then NaN
         else Fin ((if neg then - 1 else 1) * foldl (\<lambda>acc c. 10 * acc + digitValue c) 0 ds))"

text \<open>Number to string, as a template literal does it: decimal digits, or \<open>NaN\<close>.\<close>

function decimal :: "int \<Rightarrow> string" where
  "decimal n =
     (if n < 10 then [char_of (48 + n)] else decimal (n div 10) @ [char_of (48 + n mod 10)])"
  by pat_completeness auto
termination
  by (relation "measure nat") auto

declare decimal.simps [simp del]

definition numberToString :: "number \<Rightarrow> string" where
  "numberToString v =
     (case v of NaN \<Rightarrow> ''NaN''
      | Fin n \<Rightarrow> if n < 0 then CHR ''-'' # decimal (- n) else decimal n)"

text \<open>
  The segments on which this model of numbers is exact: \<open>parseInt\<close> reads \<open>NaN\<close> or an
  integer of magnitude below \<open>2 ^ 52\<close>. Such an integer is a double, and the row computed
  from two such segments stays below \<open>2 ^ 53\<close>, so that no step rounds and the result is
  printed in plain decimal.
\<close>

definition exact_segment :: "string \<Rightarrow> bool" where
  "exact_segment s = (case parseInt s of NaN \<Rightarrow> True | Fin n \<Rightarrow> \<bar>n\<bar> < 2 ^ 52)"

section \<open>Node's \<open>path\<close> module (POSIX)\<close>

text \<open>
  \<open>path.parse(p).name\<close>. The library scans \<open>p\<close> from its last character down to index
  \<open>start\<close> (1 for an absolute path, else 0), skipping trailing separators, noting the end of
  the last component, its last dot, and what precedes that dot; it stops at the separator
  before the last component.
\<close>

record parse_state =
  startDot :: "nat option"
  startPart :: nat
  endIdx :: "nat option"
  matchedSlash :: bool
  preDotState :: int

fun parse_loop :: "string \<Rightarrow> nat \<Rightarrow> nat \<Rightarrow> parse_state \<Rightarrow> parse_state" where
  "parse_loop p start 0 st = st"
| "parse_loop p start (Suc i) st =
     (if i < start then st
      else if p ! i = CHR ''/'' then
        (if \<not> matchedSlash st then st\<lparr>startPart := i + 1\<rparr>
         else parse_loop p start i st)
      else
        (let st1 = (if endIdx st = None
                    then st\<lparr>matchedSlash := False, endIdx := Some (i + 1)\<rparr> else st);
             st2 = (if p ! i = CHR ''.'' then
                      (if startDot st1 = None then st1\<lparr>startDot := Some i\<rparr>
                       else if preDotState st1 \<noteq> 1 then st1\<lparr>preDotState := 1\<rparr>
                       else st1)
                    else if startDot st1 \<noteq> None then st1\<lparr>preDotState := - 1\<rparr>
                    else st1)
         in parse_loop p start i st2))"

definition path_parse_name :: "string \<Rightarrow> string" where
  "path_parse_name p =
     (if p = [] then []
      else
        let isAbsolute = (hd p = CHR ''/'');
            start = (if isAbsolute then 1 else 0);
            st = parse_loop p start (length p)
                   \<lparr>startDot = None, startPart = 0, endIdx = None,
                    matchedSlash = True, preDotState = 0\<rparr>
        in case endIdx st of
             None \<Rightarrow> []
           | Some e \<Rightarrow>
               let from = (if startPart st = 0 \<and> isAbsolute then 1 else startPart st)
               in if startDot st = None \<or> preDotState st = 0 \<or>
                     (preDotState st = 1 \<and> startDot st = Some (e - 1) \<and>
                      startDot st = Some (startPart st + 1))
                  then take (e - from) (drop from p)
                  else take (the (startDot st) - from) (drop from p))"

text \<open>
  \<open>path.join\<close>: the non-empty arguments are joined with \<open>/\<close> and the result is normalised:
  empty and \<open>.\<close> components are dropped, \<open>..\<close> removes the component before it (and is
  kept at the front of a relative path, dropped at the root of an absolute one).
\<close>

fun split_slash :: "string \<Rightarrow> string list" where
  "split_slash [] = [[]]"
| "split_slash (c # cs) =
     (if c = CHR ''/'' then [] # split_slash cs
      else case split_slash cs of
             [] \<Rightarrow> [[c]]
           | seg # segs \<Rightarrow> (c # seg) # segs)"

fun join_slash :: "string list \<Rightarrow> string" where
  "join_slash [] = []"
| "join_slash [s] = s"
| "join_slash (s # t # ss) = s @ CHR ''/'' # join_slash (t # ss)"

definition normalize_step :: "bool \<Rightarrow> string list \<Rightarrow> string \<Rightarrow> string list" where
  "normalize_step allowAboveRoot res seg =
     (if seg = [] \<or> seg = ''.'' then res
      else if seg = ''..'' then
        (if res \<noteq> [] \<and> last res \<noteq> ''..'' then butlast res
         else if allowAboveRoot then res @ [''..'']
         else res)
      else res @ [seg])"

definition path_normalize :: "string \<Rightarrow> string" where
  "path_normalize p =
     (if p = [] then ''.''
      else
        let isAbsolute = (hd p = CHR ''/'');
            trailingSeparator = (last p = CHR ''/'');
            q = join_slash (foldl (normalize_step (\<not> isAbsolute)) [] (split_slash p))
        in if q = [] then (if isAbsolute then ''/'' else if trailingSeparator then ''./'' else ''.'')
           else (if isAbsolute then ''/'' else []) @ q @ (if trailingSeparator then ''/'' else []))"

definition path_join :: "string list \<Rightarrow> string" where
  "path_join args =
     (let joined = join_slash (filter (\<lambda>a. a \<noteq> []) args)
      in if joined = [] then ''.'' else path_normalize joined)"

section \<open>The tile route: \<open>app/api/tiles/[...all]/route.ts\<close>\<close>

text \<open>
  The file system is read through \<open>fs.readFileSync\<close>, which returns the bytes of the file
  or throws an error carrying a code. The working directory of the process is a parameter.
\<close>

datatype errno = ENOENT | EACCES | EISDIR | EIO | ENOSPC | EPERM | EROFS | EMFILE

type_synonym bytes = "8 word list"

datatype tile_body = Text string | Buffer bytes

record 'b response =
  status :: nat
  headers :: "(string \<times> string) list"
  body :: 'b

definition TILE_BASE_PATH :: "string \<Rightarrow> string" where
  "TILE_BASE_PATH cwd = path_join [cwd, ''public'', ''tiles'']"

definition CONVERT_Y_TO_TMS :: bool where
  "CONVERT_Y_TO_TMS = True"

text \<open>The row flip \<open>(1 << z) - 1 - y\<close> of the route.\<close>

definition tms :: "number \<Rightarrow> number \<Rightarrow> number" where
  "tms y z = minus_number (minus_number (shl1 z) (Fin 1)) y"

text \<open>The row used for the lookup, from the zoom and row segments.\<close>

definition yToUse :: "string \<Rightarrow> string \<Rightarrow> number" where
  "yToUse zStr yPng =
     (let yStr = path_parse_name yPng;
          z = parseInt zStr;
          y = parseInt yStr
      in if CONVERT_Y_TO_TMS then tms y z else y)"

definition finalFilePath :: "string \<Rightarrow> string \<Rightarrow> string \<Rightarrow> string \<Rightarrow> string \<Rightarrow> string" where
  "finalFilePath cwd fullId zStr xStr yPng =
     path_join [TILE_BASE_PATH cwd, fullId, zStr, xStr,
                numberToString (yToUse zStr yPng) @ ''.png'']"

definition GET :: "string \<Rightarrow> (string \<Rightarrow> errno + bytes) \<Rightarrow> string list \<Rightarrow> tile_body response" where
  "GET cwd readFileSync pathSegments =
     (case pathSegments of
        [fullId, zStr, xStr, yPng] \<Rightarrow>
          if TILE_BASE_PATH cwd = [] then
            \<lparr>status = 500, headers = [],
             body = Text ''Tile storage path is not found or configured correctly.''\<rparr>
          else
            (case readFileSync (finalFilePath cwd fullId zStr xStr yPng) of
               Inr fileBuffer \<Rightarrow>
                 \<lparr>status = 200, headers = [(''Content-Type'', ''image/png'')],
                  body = Buffer fileBuffer\<rparr>
             | Inl error \<Rightarrow>
                 \<lparr>status = 400, headers = [], body = Text ''Tile not found on server ''\<rparr>)
      | _ \<Rightarrow>
          \<lparr>status = 400, headers = [],
           body = Text ''Invalid tile URL format. Expected /api/tiles/{id}/{z}/{x}/{y}.png''\<rparr>)"

text \<open>File systems for the closed examples: one without any tile, one whose reads are
  refused, and one holding a single tile under the working directory \<open>/app\<close>.\<close>

definition fs_no_tiles :: "string \<Rightarrow> errno + bytes" where
  "fs_no_tiles p = Inl ENOENT"

definition fs_denied :: "string \<Rightarrow> errno + bytes" where
  "fs_denied p = Inl EACCES"

definition fs_one_tile :: "string \<Rightarrow> errno + bytes" where
  "fs_one_tile p =
     (if p = ''/app/public/tiles/sub1/31/0/-2147483649.png'' then Inr [137, 80, 78, 71]
      else Inl ENOENT)"

section \<open>JSON values\<close>

text \<open>
  The values that \<open>JSON.parse\<close> produces and \<open>JSON.stringify\<close> prints. The members of an
  object are kept in the order in which JavaScript enumerates them. The type of numbers is a
  parameter of the values; it is the type of doubles below. In the functions of the
  repository \<open>JSON.parse\<close> and \<open>JSON.stringify\<close>, which belong to the platform, are
  parameters: \<open>parse\<close> returns \<open>None\<close> where \<open>JSON.parse\<close> throws a \<open>SyntaxError\<close>, and
  \<open>stringify n v\<close> is \<open>JSON.stringify(v, null, n)\<close> (with \<open>n = 0\<close> for the call without
  indentation). A model of the two follows further below.
\<close>

datatype 'n json =
    JNull
  | JBool bool
  | JNum 'n
  | JStr string
  | JArr "'n json list"
  | JObj "(string \<times> 'n json) list"

type_synonym 'n parser = "string \<Rightarrow> 'n json option"
type_synonym 'n printer = "nat \<Rightarrow> 'n json \<Rightarrow> string"

section \<open>The data directory\<close>

text \<open>
  The state of the file system as \<open>lib/data.ts\<close> sees it: whether the data directory exists,
  the text of each file in it, and the environment's faults, that is the error (permissions,
  disk, ...) with which a call fails whatever the directory holds. A call that fails leaves
  the state as it was.
\<close>

datatype fs_call = AccessDir | MkDir | Access string | ReadFile string | WriteFile string

record data_fs =
  dirExists :: bool
  files :: "string \<rightharpoonup> string"
  fault :: "fs_call \<Rightarrow> errno option"

definition fs_access_dir :: "data_fs \<Rightarrow> errno option" where
  "fs_access_dir \<sigma> =
     (case fault \<sigma> AccessDir of
        Some e \<Rightarrow> Some e
      | None \<Rightarrow> if dirExists \<sigma> then None else Some ENOENT)"

definition fs_mkdir :: "data_fs \<Rightarrow> errno option \<times> data_fs" where
  "fs_mkdir \<sigma> =
     (case fault \<sigma> MkDir of
        Some e \<Rightarrow> (Some e, \<sigma>)
      | None \<Rightarrow> (None, \<sigma>\<lparr>dirExists := True\<rparr>))"

definition fs_access :: "string \<Rightarrow> data_fs \<Rightarrow> errno option" where
  "fs_access p \<sigma> =
     (case fault \<sigma> (Access p) of
        Some e \<Rightarrow> Some e
      | None \<Rightarrow> if dirExists \<sigma> \<and> files \<sigma> p \<noteq> None then None else Some ENOENT)"

definition fs_readFile :: "string \<Rightarrow> data_fs \<Rightarrow> errno + string" where
  "fs_readFile p \<sigma> =
     (case fault \<sigma> (ReadFile p) of
        Some e \<Rightarrow> Inl e
      | None \<Rightarrow>
          if dirExists \<sigma> then (case files \<sigma> p of None \<Rightarrow> Inl ENOENT | Some data \<Rightarrow> Inr data)
          else Inl ENOENT)"

definition fs_writeFile :: "string \<Rightarrow> string \<Rightarrow> data_fs \<Rightarrow> errno option \<times> data_fs" where
  "fs_writeFile p data \<sigma> =
     (case fault \<sigma> (WriteFile p) of
        Some e \<Rightarrow> (Some e, \<sigma>)
      | None \<Rightarrow>
          if dirExists \<sigma> then (None, \<sigma>\<lparr>files := (files \<sigma>)(p \<mapsto> data)\<rparr>)
          else (Some ENOENT, \<sigma>))"

section \<open>The document store: \<open>lib/data.ts\<close>\<close>

text \<open>What a \<open>catch\<close> can receive: a system error with its code, or an error without a
  code.\<close>

datatype error = SystemError errno | SyntaxError | TypeError | Error string

definition dataDir :: "string \<Rightarrow> string" where
  "dataDir cwd = path_join [cwd, ''app/data'']"

definition substationsPath :: "string \<Rightarrow> string" where
  "substationsPath cwd = path_join [dataDir cwd, ''substations.json'']"

definition polygonsPath :: "string \<Rightarrow> string" where
  "polygonsPath cwd = path_join [dataDir cwd, ''component_polygons.json'']"

definition ensureDataDir :: "data_fs \<Rightarrow> (error + unit) \<times> data_fs" where
  "ensureDataDir \<sigma> =
     (case fs_access_dir \<sigma> of
        None \<Rightarrow> (Inr (), \<sigma>)
      | Some _ \<Rightarrow>
          (case fs_mkdir \<sigma> of
             (None, \<sigma>') \<Rightarrow> (Inr (), \<sigma>')
           | (Some e, \<sigma>') \<Rightarrow> (Inl (SystemError e), \<sigma>')))"

text \<open>The \<open>try\<close> block of \<open>readJsonFile\<close>, then the function with its \<open>catch\<close>.\<close>

definition readJsonFile_try :: "'n parser \<Rightarrow> string \<Rightarrow> data_fs \<Rightarrow> (error + 'n json) \<times> data_fs" where
  "readJsonFile_try parse filePath \<sigma> =
     (case ensureDataDir \<sigma> of
        (Inl err, \<sigma>') \<Rightarrow> (Inl err, \<sigma>')
      | (Inr _, \<sigma>') \<Rightarrow>
          (case fs_access filePath \<sigma>' of
             Some e \<Rightarrow> (Inl (SystemError e), \<sigma>')
           | None \<Rightarrow>
               (case fs_readFile filePath \<sigma>' of
                  Inl e \<Rightarrow> (Inl (SystemError e), \<sigma>')
                | Inr data \<Rightarrow>
                    (case parse data of
                       None \<Rightarrow> (Inl SyntaxError, \<sigma>')
                     | Some v \<Rightarrow> (Inr v, \<sigma>')))))"

definition readJsonFile :: "'n parser \<Rightarrow> string \<Rightarrow> data_fs \<Rightarrow> (error + 'n json) \<times> data_fs" where
  "readJsonFile parse filePath \<sigma> =
     (case readJsonFile_try parse filePath \<sigma> of
        (Inl err, \<sigma>') \<Rightarrow>
          if err = SystemError ENOENT then (Inr (JArr []), \<sigma>') else (Inl err, \<sigma>')
      | (Inr v, \<sigma>') \<Rightarrow> (Inr v, \<sigma>'))"


definition getComponentPolygons :: "'n parser \<Rightarrow> string \<Rightarrow> data_fs \<Rightarrow> (error + 'n json) \<times> data_fs" where
  "getComponentPolygons parse cwd \<sigma> = readJsonFile parse (polygonsPath cwd) \<sigma>"


definition writeComponentPolygons :: "'n printer \<Rightarrow> string \<Rightarrow> 'n json \<Rightarrow> data_fs \<Rightarrow> (error + unit) \<times> data_fs" where
  "writeComponentPolygons stringify cwd data \<sigma> =
     (case ensureDataDir \<sigma> of
        (Inl err, \<sigma>') \<Rightarrow> (Inl err, \<sigma>')
      | (Inr _, \<sigma>') \<Rightarrow>
          (case fs_writeFile (polygonsPath cwd) (stringify 2 data) \<sigma>' of
             (Some e, \<sigma>'') \<Rightarrow> (Inl (SystemError e), \<sigma>'')
           | (None, \<sigma>'') \<Rightarrow> (Inr (), \<sigma>'')))"

section \<open>The collection routes: \<open>app/api/substations/route.ts\<close>, \<open>app/api/polygons/route.ts\<close>\<close>

text \<open>\<open>NextResponse.json(v)\<close> has status 200 unless one is given; its body is kept as the
  value \<open>v\<close>, and \<open>headers\<close> lists the headers that the handler itself passes. A \<open>POST\<close>
  takes the text of the request body.\<close>

definition message :: "string \<Rightarrow> 'n json" where
  "message m = JObj [(''message'', JStr m)]"



definition polygons_GET :: "'n parser \<Rightarrow> string \<Rightarrow> data_fs \<Rightarrow> 'n json response \<times> data_fs" where
  "polygons_GET parse cwd \<sigma> =
     (case getComponentPolygons parse cwd \<sigma> of
        (Inr polygons, \<sigma>') \<Rightarrow> (\<lparr>status = 200, headers = [], body = polygons\<rparr>, \<sigma>')
      | (Inl _, \<sigma>') \<Rightarrow>
          (\<lparr>status = 500, headers = [], body = message ''Error reading polygons file''\<rparr>, \<sigma>'))"

definition polygons_POST ::
    "'n parser \<Rightarrow> 'n printer \<Rightarrow> string \<Rightarrow> string \<Rightarrow> data_fs \<Rightarrow> 'n json response \<times> data_fs" where
  "polygons_POST parse stringify cwd request \<sigma> =
     (case parse request of
        None \<Rightarrow>
          (\<lparr>status = 500, headers = [], body = message ''Error writing polygons file''\<rparr>, \<sigma>)
      | Some b \<Rightarrow>
          (case writeComponentPolygons stringify cwd b \<sigma> of
             (Inr _, \<sigma>') \<Rightarrow>
               (\<lparr>status = 200, headers = [],
                 body = message ''Polygons updated successfully''\<rparr>, \<sigma>')
           | (Inl _, \<sigma>') \<Rightarrow>
               (\<lparr>status = 500, headers = [],
                 body = message ''Error writing polygons file''\<rparr>, \<sigma>')))"

section \<open>The numbers of JSON documents\<close>

text \<open>
  A number in a JSON document is a double in full. A finite double other than negative zero
  is \<open>Dyadic m e\<close>, the number \<open>m * 2 ^ e\<close>, with \<open>m\<close> odd, \<open>\<bar>m\<bar> < 2 ^ 53\<close>,
  \<open>- 1074 \<le> e\<close> and \<open>\<bar>m\<bar> * 2 ^ e < 2 ^ 1024\<close>; zero is \<open>Dyadic 0 0\<close>. So \<open>43.5\<close> is
  \<open>Dyadic 87 (- 1)\<close> and \<open>- 111\<close> is \<open>Dyadic (- 111) 0\<close>.
\<close>

datatype double = Dyadic int int | NegZero | PosInf | NegInf | NotANumber

text \<open>The value of a run of decimal digits.\<close>

definition digits_value :: "string \<Rightarrow> int" where
  "digits_value ds = foldl (\<lambda>acc c. 10 * acc + digitValue c) 0 ds"

text \<open>Taking the factors 2 out of a mantissa, and the factors 10 out of a decimal
  significand.\<close>

function strip2 :: "int \<Rightarrow> int \<Rightarrow> int \<times> int" where
  "strip2 m e = (if m \<noteq> 0 \<and> even m then strip2 (m div 2) (e + 1) else (m, e))"
  by pat_completeness auto
termination
  by (relation "measure (\<lambda>(m, e). nat \<bar>m\<bar>)") auto

declare strip2.simps [simp del]

function strip10 :: "int \<Rightarrow> int \<Rightarrow> int \<times> int" where
  "strip10 s t = (if s \<noteq> 0 \<and> s mod 10 = 0 then strip10 (s div 10) (t + 1) else (s, t))"
  by pat_completeness auto
termination
  by (relation "measure (\<lambda>(s, t). nat \<bar>s\<bar>)") auto

declare strip10.simps [simp del]

text \<open>The number of binary digits of a positive integer.\<close>

function bits :: "int \<Rightarrow> int" where
  "bits n = (if n \<le> 0 then 0 else 1 + bits (n div 2))"
  by pat_completeness auto
termination
  by (relation "measure nat") auto

declare bits.simps [simp del]

text \<open>The positive doubles, by mantissa and exponent.\<close>

definition is_double :: "int \<Rightarrow> int \<Rightarrow> bool" where
  "is_double m e =
     (odd m \<and> 0 < m \<and> m < 2 ^ 53 \<and> - 1074 \<le> e \<and> e \<le> 1023 \<and> m * 2 ^ nat (e - 971) < 2 ^ 53)"

text \<open>
  The value of a decimal literal, \<open>s * 10 ^ t\<close> with \<open>0 < s\<close>, as a double. When
  the decimal is itself a dyadic number, \<open>exact_dyadic\<close> gives its mantissa and exponent.
  Otherwise it is rounded to the nearest double, a tie going to the even mantissa:
  \<open>round_nearest p q\<close> rounds \<open>p / q\<close>, with \<open>ilog2 p q\<close> the exponent of its leading bit
  and 52 further bits kept (fewer below \<open>2 ^ - 1022\<close>). The result \<open>None\<close> stands for
  infinity and \<open>Some (0, 0)\<close> for zero. A decimal of \<open>310\<close> or more digits before the
  point is beyond every double, and one below \<open>10 ^ - 324\<close> rounds to zero.
\<close>

definition exact_dyadic :: "int \<Rightarrow> int \<Rightarrow> (int \<times> int) option" where
  "exact_dyadic s t =
     (if 0 \<le> t then Some (strip2 (s * 5 ^ nat t) t)
      else if s mod 5 ^ nat (- t) = 0 then Some (strip2 (s div 5 ^ nat (- t)) t)
      else None)"

definition ilog2 :: "int \<Rightarrow> int \<Rightarrow> int" where
  "ilog2 p q =
     (let d = bits p - bits q
      in if 0 \<le> d then (if q * 2 ^ nat d \<le> p then d else d - 1)
         else (if q \<le> p * 2 ^ nat (- d) then d else d - 1))"

definition round_nearest :: "int \<Rightarrow> int \<Rightarrow> (int \<times> int) option" where
  "round_nearest p q =
     (let u = max (ilog2 p q - 52) (- 1074);
          num = (if 0 \<le> u then p else p * 2 ^ nat (- u));
          den = (if 0 \<le> u then q * 2 ^ nat u else q);
          quo = num div den;
          rem = num mod den;
          M = (if den < 2 * rem \<or> (2 * rem = den \<and> odd quo) then quo + 1 else quo)
      in if M = 0 then Some (0, 0)
         else if 971 \<le> u \<and> 2 ^ 53 \<le> M * 2 ^ nat (u - 971) then None
         else Some (strip2 M u))"

definition rounded :: "int \<Rightarrow> int \<Rightarrow> (int \<times> int) option" where
  "rounded s t =
     (let nd = int (length (decimal s))
      in if 309 < nd + t then None
         else if nd + t < - 323 then Some (0, 0)
         else if 0 \<le> t then round_nearest (s * 10 ^ nat t) 1
         else round_nearest s (10 ^ nat (- t)))"

definition magnitude :: "int \<Rightarrow> int \<Rightarrow> (int \<times> int) option" where
  "magnitude s0 t0 =
     (case strip10 s0 t0 of
        (s, t) \<Rightarrow>
          (case (if - 1074 \<le> t \<and> t \<le> 1024 then exact_dyadic s t else None) of
             Some (m, e) \<Rightarrow> if is_double m e then Some (m, e) else rounded s t
           | None \<Rightarrow> rounded s t))"

text \<open>The double of a literal with the sign \<open>neg\<close>, the digits \<open>s\<close> and the decimal
  exponent \<open>t\<close>.\<close>

definition to_double :: "bool \<Rightarrow> int \<Rightarrow> int \<Rightarrow> double" where
  "to_double neg s t =
     (if s = 0 then (if neg then NegZero else Dyadic 0 0)
      else
        (case magnitude s t of
           None \<Rightarrow> if neg then NegInf else PosInf
         | Some (m, e) \<Rightarrow>
             if m = 0 then (if neg then NegZero else Dyadic 0 0)
             else Dyadic (if neg then - m else m) e))"

text \<open>
  Number to string. The digits of a positive double \<open>m * 2 ^ e\<close> are the shortest decimal
  \<open>s * 10 ^ t\<close> that reads back as that double, the nearest one where several of the same
  length do: with \<open>n\<close> the position of the decimal point (\<open>decimal_point\<close>), the two decimals
  of \<open>k\<close> digits next to the double are tried, the nearer first, for \<open>k\<close> from 1 to 17. Seventeen
  digits always suffice; the exact decimal expansion stands in the definition for the case that
  they did not.
\<close>

definition decimal_point :: "int \<Rightarrow> int \<Rightarrow> int" where
  "decimal_point p q =
     (if q \<le> p then int (length (decimal (p div q)))
      else 1 - int (length (decimal ((q - 1) div p))))"

definition candidates :: "int \<Rightarrow> int \<Rightarrow> int \<Rightarrow> int list" where
  "candidates p q j =
     (let num = (if 0 \<le> j then p else p * 10 ^ nat (- j));
          den = (if 0 \<le> j then q * 10 ^ nat j else q);
          lo = num div den;
          rem = num mod den
      in if rem = 0 then [lo]
         else if 2 * rem < den \<or> (2 * rem = den \<and> even lo) then [lo, lo + 1]
         else [lo + 1, lo])"

fun first_some :: "('a \<Rightarrow> 'b option) \<Rightarrow> 'a list \<Rightarrow> 'b option" where
  "first_some f [] = None"
| "first_some f (x # xs) = (case f x of Some y \<Rightarrow> Some y | None \<Rightarrow> first_some f xs)"

definition accepted :: "int \<Rightarrow> int \<Rightarrow> int \<Rightarrow> int \<Rightarrow> (int \<times> int) option" where
  "accepted m e n k =
     (let p = (if 0 \<le> e then m * 2 ^ nat e else m);
          q = (if 0 \<le> e then 1 else 2 ^ nat (- e))
      in map_option (\<lambda>c. (c, n - k))
           (find (\<lambda>c. 0 < c \<and> magnitude c (n - k) = Some (m, e)) (candidates p q (n - k))))"

definition search :: "int \<Rightarrow> int \<Rightarrow> (int \<times> int) option" where
  "search m e =
     (let p = (if 0 \<le> e then m * 2 ^ nat e else m);
          q = (if 0 \<le> e then 1 else 2 ^ nat (- e));
          n = decimal_point p q
      in first_some (accepted m e n) [1, 2, 3, 4, 5, 6, 7, 8, 9, 10, 11, 12, 13, 14, 15, 16, 17])"

definition shortest :: "int \<Rightarrow> int \<Rightarrow> int \<times> int" where
  "shortest m e =
     (case search m e of
        Some (c, t) \<Rightarrow> strip10 c t
      | None \<Rightarrow> if 0 \<le> e then strip10 (m * 2 ^ nat e) 0 else (m * 5 ^ nat (- e), e))"

text \<open>The digits \<open>s\<close> with the exponent \<open>t\<close> as text: plain digits up to 21 places before
  the point and 6 zeros after it, the exponent form beyond.\<close>

definition format_digits :: "int \<Rightarrow> int \<Rightarrow> string" where
  "format_digits s t =
     (let ds = decimal s;
          k = int (length ds);
          n = k + t
      in if k \<le> n \<and> n \<le> 21 then ds @ replicate (nat (n - k)) CHR ''0''
         else if 0 < n \<and> n \<le> 21 then take (nat n) ds @ ''.'' @ drop (nat n) ds
         else if - 6 < n \<and> n \<le> 0 then ''0.'' @ replicate (nat (- n)) CHR ''0'' @ ds
         else
           (let ex = (if n - 1 < 0 then CHR ''-'' # decimal (1 - n) else CHR ''+'' # decimal (n - 1))
            in if k = 1 then ds @ ''e'' @ ex else hd ds # ''.'' @ tl ds @ ''e'' @ ex))"

definition number_to_string :: "double \<Rightarrow> string" where
  "number_to_string x =
     (case x of
        Dyadic m e \<Rightarrow>
          if m = 0 then ''0''
          else if m < 0 then CHR ''-'' # (case shortest (- m) e of (s, t) \<Rightarrow> format_digits s t)
          else (case shortest m e of (s, t) \<Rightarrow> format_digits s t)
      | NegZero \<Rightarrow> ''0''
      | PosInf \<Rightarrow> ''Infinity''
      | NegInf \<Rightarrow> ''-Infinity''
      | NotANumber \<Rightarrow> ''NaN'')"

text \<open>
  A number literal of a JSON text: an optional minus sign, then \<open>0\<close> or digits not starting
  with \<open>0\<close>, then an optional fraction and an optional exponent. The result is the double and
  the rest of the text.
\<close>

definition take_digits :: "string \<Rightarrow> string \<times> string" where
  "take_digits cs = (takeWhile isDigit cs, dropWhile isDigit cs)"

definition parse_fraction :: "string \<Rightarrow> (string \<times> string) option" where
  "parse_fraction cs =
     (if cs \<noteq> [] \<and> hd cs = CHR ''.'' then
        (case take_digits (tl cs) of
           (fp, rest) \<Rightarrow> if fp = [] then None else Some (fp, rest))
      else Some ([], cs))"

definition parse_exponent :: "string \<Rightarrow> (int \<times> string) option" where
  "parse_exponent cs =
     (if cs \<noteq> [] \<and> (hd cs = CHR ''e'' \<or> hd cs = CHR ''E'') then
        (let r = tl cs;
             neg = (r \<noteq> [] \<and> hd r = CHR ''-'');
             u = (if r \<noteq> [] \<and> (hd r = CHR ''+'' \<or> hd r = CHR ''-'') then tl r else r)
         in case take_digits u of
              (ed, rest) \<Rightarrow>
                if ed = [] then None
                else Some (if neg then - digits_value ed else digits_value ed, rest))
      else Some (0, cs))"

definition parse_number :: "string \<Rightarrow> (double \<times> string) option" where
  "parse_number cs =
     (let neg = (cs \<noteq> [] \<and> hd cs = CHR ''-'');
          u = (if neg then tl cs else cs)
      in case take_digits u of
           (ip, r1) \<Rightarrow>
             if ip = [] then None
             else if hd ip = CHR ''0'' \<and> tl ip \<noteq> [] then None
             else
               (case parse_fraction r1 of
                  None \<Rightarrow> None
                | Some (fp, r2) \<Rightarrow>
                    (case parse_exponent r2 of
                       None \<Rightarrow> None
                     | Some (ex, r3) \<Rightarrow>
                         Some (to_double neg (digits_value (ip @ fp)) (ex - int (length fp)), r3))))"

text \<open>The numbers that a JSON text can hold as they are: the finite doubles other than
  negative zero.\<close>

definition wf_double :: "double \<Rightarrow> bool" where
  "wf_double x = (case x of Dyadic m e \<Rightarrow> (m = 0 \<and> e = 0) \<or> is_double \<bar>m\<bar> e | _ \<Rightarrow> False)"

section \<open>A JSON printer and parser\<close>

text \<open>
  A model of the platform's printer and parser: the printer follows
  \<open>JSON.stringify(v, null, n)\<close> and the parser \<open>JSON.parse\<close>. A text is a sequence of code
  units below 256, so that an escape \<open>\u\<close> of a higher code unit has no value here and the
  parser gives \<open>None\<close> for it; the printer never writes one. A number that is not finite is
  printed as \<open>null\<close>, and negative zero as \<open>0\<close>. The members of a parsed object are in the
  order of JavaScript: the names that are array indices first, in ascending order, then the
  other names in the order of the text; a repeated name keeps its place and takes the last
  value.
\<close>

definition dquote :: char where
  "dquote = CHR 0x22"

definition backslash :: char where
  "backslash = CHR 0x5C"

definition hexChar :: "nat \<Rightarrow> char" where
  "hexChar d = (if d < 10 then char_of (48 + d) else char_of (87 + d))"

definition escape_char :: "char \<Rightarrow> string" where
  "escape_char c =
     (if c = dquote then [backslash, dquote]
      else if c = backslash then [backslash, backslash]
      else if c = CHR 0x08 then [backslash, CHR ''b'']
      else if c = CHR 0x09 then [backslash, CHR ''t'']
      else if c = CHR 0x0A then [backslash, CHR ''n'']
      else if c = CHR 0x0C then [backslash, CHR ''f'']
      else if c = CHR 0x0D then [backslash, CHR ''r'']
      else if (of_char c :: nat) < 32 then
        [backslash, CHR ''u'', CHR ''0'', CHR ''0'',
         hexChar (of_char c div 16), hexChar (of_char c mod 16)]
      else [c])"

definition quote :: "string \<Rightarrow> string" where
  "quote s = dquote # concat (map escape_char s) @ [dquote]"

fun join_with :: "string \<Rightarrow> string list \<Rightarrow> string" where
  "join_with sep [] = []"
| "join_with sep [s] = s"
| "join_with sep (s # t # ss) = s @ sep @ join_with sep (t # ss)"

text \<open>The line break and indentation before an item at a nesting level; nothing when the
  indentation is 0.\<close>

definition pad :: "nat \<Rightarrow> nat \<Rightarrow> string" where
  "pad indent level =
     (if indent = 0 then [] else CHR 0x0A # replicate (indent * level) CHR '' '')"

definition colon_sep :: "nat \<Rightarrow> string" where
  "colon_sep indent = (if indent = 0 then '':'' else '': '')"

fun stringify_at :: "nat \<Rightarrow> nat \<Rightarrow> double json \<Rightarrow> string" where
  "stringify_at indent level JNull = ''null''"
| "stringify_at indent level (JBool b) = (if b then ''true'' else ''false'')"
| "stringify_at indent level (JNum x) =
     (case x of Dyadic m e \<Rightarrow> number_to_string x | NegZero \<Rightarrow> ''0'' | _ \<Rightarrow> ''null'')"
| "stringify_at indent level (JStr s) = quote s"
| "stringify_at indent level (JArr vs) =
     (if vs = [] then ''[]''
      else
        ''['' @ pad indent (Suc level)
        @ join_with (CHR '','' # pad indent (Suc level))
            (map (stringify_at indent (Suc level)) vs)
        @ pad indent level @ '']'')"
| "stringify_at indent level (JObj kvs) =
     (if kvs = [] then ''{}''
      else
        ''{'' @ pad indent (Suc level)
        @ join_with (CHR '','' # pad indent (Suc level))
            (map (\<lambda>kv. quote (fst kv) @ colon_sep indent @ stringify_at indent (Suc level) (snd kv))
               kvs)
        @ pad indent level @ ''}'')"

definition json_stringify :: "double printer" where
  "json_stringify indent v = stringify_at indent 0 v"

definition is_json_ws :: "char \<Rightarrow> bool" where
  "is_json_ws c = (of_char c \<in> {9, 10, 13, 32 :: nat})"

definition skip_ws :: "string \<Rightarrow> string" where
  "skip_ws cs = dropWhile is_json_ws cs"

definition hexValue :: "char \<Rightarrow> nat option" where
  "hexValue c =
     (let n = (of_char c :: nat)
      in if 48 \<le> n \<and> n \<le> 57 then Some (n - 48)
         else if 97 \<le> n \<and> n \<le> 102 then Some (n - 87)
         else if 65 \<le> n \<and> n \<le> 70 then Some (n - 55)
         else None)"

definition unescape :: "char \<Rightarrow> char option" where
  "unescape e =
     (if e = dquote then Some dquote
      else if e = backslash then Some backslash
      else if e = CHR ''/'' then Some CHR ''/''
      else if e = CHR ''b'' then Some (CHR 0x08)
      else if e = CHR ''t'' then Some (CHR 0x09)
      else if e = CHR ''n'' then Some (CHR 0x0A)
      else if e = CHR ''f'' then Some (CHR 0x0C)
      else if e = CHR ''r'' then Some (CHR 0x0D)
      else None)"

definition unicode_escape :: "char \<Rightarrow> char \<Rightarrow> char \<Rightarrow> char \<Rightarrow> char option" where
  "unicode_escape a b c d =
     (case (hexValue a, hexValue b, hexValue c, hexValue d) of
        (Some 0, Some 0, Some h, Some l) \<Rightarrow> Some (char_of (16 * h + l))
      | _ \<Rightarrow> None)"

definition push_char :: "char \<Rightarrow> (string \<times> string) option \<Rightarrow> (string \<times> string) option" where
  "push_char c r = (case r of None \<Rightarrow> None | Some (s, rest) \<Rightarrow> Some (c # s, rest))"

text \<open>The characters of a string literal after its opening quote, and the rest of the text.\<close>

fun parse_chars :: "string \<Rightarrow> (string \<times> string) option" where
  "parse_chars [] = None"
| "parse_chars (c # cs) =
     (if c = dquote then Some ([], cs)
      else if c = backslash then
        (case cs of
           [] \<Rightarrow> None
         | e # r \<Rightarrow>
             if e = CHR ''u'' then
               (case r of
                  h1 # h2 # h3 # h4 # r' \<Rightarrow>
                    (case unicode_escape h1 h2 h3 h4 of
                       None \<Rightarrow> None
                     | Some ch \<Rightarrow> push_char ch (parse_chars r'))
                | _ \<Rightarrow> None)
             else
               (case unescape e of
                  None \<Rightarrow> None
                | Some ch \<Rightarrow> push_char ch (parse_chars r)))
      else if (of_char c :: nat) < 32 then None
      else push_char c (parse_chars cs))"

text \<open>
  Setting the member \<open>k\<close> of an object. An array index is the decimal form of an integer
  from 0 to \<open>2 ^ 32 - 2\<close>. A name that the object has keeps its place; a new array index
  goes before the first name that is no array index or a greater one; any other new name
  goes last.
\<close>

definition is_array_index :: "string \<Rightarrow> bool" where
  "is_array_index k =
     (k \<noteq> [] \<and> list_all isDigit k \<and> (hd k \<noteq> CHR ''0'' \<or> tl k = [])
      \<and> digits_value k < 4294967295)"

definition key_before :: "string \<Rightarrow> string \<Rightarrow> bool" where
  "key_before k k' =
     (is_array_index k \<and> (is_array_index k' \<longrightarrow> digits_value k < digits_value k'))"

fun obj_put :: "string \<Rightarrow> 'v \<Rightarrow> (string \<times> 'v) list \<Rightarrow> (string \<times> 'v) list" where
  "obj_put k v [] = [(k, v)]"
| "obj_put k v ((k', v') # kvs) =
     (if k' = k then (k, v) # kvs
      else if key_before k k' \<and> k \<notin> fst ` set kvs then (k, v) # (k', v') # kvs
      else (k', v') # obj_put k v kvs)"

definition starts_with :: "string \<Rightarrow> string \<Rightarrow> bool" where
  "starts_with pre s = (take (length pre) s = pre)"

text \<open>The value parser; the first argument bounds the depth of the recursion.\<close>

fun parse_value :: "nat \<Rightarrow> string \<Rightarrow> (double json \<times> string) option"
  and parse_elements :: "nat \<Rightarrow> string \<Rightarrow> (double json list \<times> string) option"
  and parse_members :: "nat \<Rightarrow> string \<Rightarrow> ((string \<times> double json) list \<times> string) option" where
  "parse_value 0 cs = None"
| "parse_value (Suc n) cs =
     (case cs of
        [] \<Rightarrow> None
      | c # r \<Rightarrow>
          if c = CHR ''['' then
            (case skip_ws r of
               [] \<Rightarrow> None
             | d # r' \<Rightarrow>
                 if d = CHR '']'' then Some (JArr [], r')
                 else (case parse_elements n (d # r') of
                         None \<Rightarrow> None
                       | Some (vs, rest) \<Rightarrow> Some (JArr vs, rest)))
          else if c = CHR ''{'' then
            (case skip_ws r of
               [] \<Rightarrow> None
             | d # r' \<Rightarrow>
                 if d = CHR ''}'' then Some (JObj [], r')
                 else (case parse_members n (d # r') of
                         None \<Rightarrow> None
                       | Some (kvs, rest) \<Rightarrow>
                           Some (JObj (foldl (\<lambda>acc kv. obj_put (fst kv) (snd kv) acc) [] kvs), rest)))
          else if c = dquote then
            (case parse_chars r of None \<Rightarrow> None | Some (s, rest) \<Rightarrow> Some (JStr s, rest))
          else if starts_with ''null'' cs then Some (JNull, drop 4 cs)
          else if starts_with ''true'' cs then Some (JBool True, drop 4 cs)
          else if starts_with ''false'' cs then Some (JBool False, drop 5 cs)
          else (case parse_number cs of None \<Rightarrow> None | Some (k, rest) \<Rightarrow> Some (JNum k, rest)))"
| "parse_elements 0 cs = None"
| "parse_elements (Suc n) cs =
     (case parse_value n cs of
        None \<Rightarrow> None
      | Some (v, r) \<Rightarrow>
          (case skip_ws r of
             [] \<Rightarrow> None
           | d # r' \<Rightarrow>
               if d = CHR '','' then
                 (case parse_elements n (skip_ws r') of
                    None \<Rightarrow> None
                  | Some (vs, rest) \<Rightarrow> Some (v # vs, rest))
               else if d = CHR '']'' then Some ([v], r')
               else None))"
| "parse_members 0 cs = None"
| "parse_members (Suc n) cs =
     (case cs of
        [] \<Rightarrow> None
      | q # r0 \<Rightarrow>
          if q \<noteq> dquote then None
          else
            (case parse_chars r0 of
               None \<Rightarrow> None
             | Some (k, r1) \<Rightarrow>
                 (case skip_ws r1 of
                    [] \<Rightarrow> None
                  | colon # r2 \<Rightarrow>
                      if colon \<noteq> CHR '':'' then None
                      else
                        (case parse_value n (skip_ws r2) of
                           None \<Rightarrow> None
                         | Some (v, r3) \<Rightarrow>
                             (case skip_ws r3 of
                                [] \<Rightarrow> None
                              | d # r4 \<Rightarrow>
                                  if d = CHR '','' then
                                    (case parse_members n (skip_ws r4) of
                                       None \<Rightarrow> None
                                     | Some (kvs, rest) \<Rightarrow> Some ((k, v) # kvs, rest))
                                  else if d = CHR ''}'' then Some ([(k, v)], r4)
                                  else None)))))"

definition json_parse :: "double parser" where
  "json_parse text =
     (case parse_value (2 * length text + 2) (skip_ws text) of
        None \<Rightarrow> None
      | Some (v, rest) \<Rightarrow> if skip_ws rest = [] then Some v else None)"

subsection \<open>Well-formed values, and notions for the round trip\<close>

text \<open>What may follow a printed number for it to be read whole: the end of the text, or
  a character that is neither a digit nor the start of a fraction or an exponent.\<close>

definition number_follow :: "string \<Rightarrow> bool" where
  "number_follow rest =
     (rest = [] \<or> (\<not> isDigit (hd rest) \<and> hd rest \<notin> {CHR ''.'', CHR ''e'', CHR ''E''}))"

text \<open>
  The values that are their own reading: every number in them is a finite double other than
  negative zero, and the member names of every object are in the order of JavaScript, without
  a repetition. \<open>js_order\<close> says of a list of names that none of them comes again later
  and that none of the later ones belongs before it.
\<close>

fun js_order :: "string list \<Rightarrow> bool" where
  "js_order [] = True"
| "js_order (k # ks) = (list_all (\<lambda>k'. k' \<noteq> k \<and> \<not> key_before k' k) ks \<and> js_order ks)"

fun wf_json :: "double json \<Rightarrow> bool" where
  "wf_json (JNum x) = wf_double x"
| "wf_json (JArr vs) = list_all wf_json vs"
| "wf_json (JObj kvs) = (js_order (map fst kvs) \<and> list_all (\<lambda>kv. wf_json (snd kv)) kvs)"
| "wf_json _ = True"

text \<open>A bound on the recursion depth that parsing a printed value needs.\<close>

fun weight :: "double json \<Rightarrow> nat" where
  "weight (JArr vs) = Suc (sum_list (map (\<lambda>v. Suc (weight v)) vs))"
| "weight (JObj kvs) = Suc (sum_list (map (\<lambda>kv. Suc (weight (snd kv))) kvs))"
| "weight _ = 1"

text \<open>What a printed value starts with.\<close>

definition value_start :: "char \<Rightarrow> bool" where
  "value_start c = (\<not> is_json_ws c \<and> c \<noteq> CHR '']'' \<and> c \<noteq> CHR ''}'' \<and> c \<noteq> CHR '','')"

text \<open>What follows a printed value inside a printed text.\<close>

definition follow :: "string \<Rightarrow> bool" where
  "follow rest =
     (rest = [] \<or> hd rest = CHR '','' \<or> hd rest = CHR '']'' \<or> hd rest = CHR ''}''
      \<or> is_json_ws (hd rest))"

text \<open>The printed form of one member of an object.\<close>

definition member_text :: "nat \<Rightarrow> nat \<Rightarrow> string \<times> double json \<Rightarrow> string" where
  "member_text indent lv kv = quote (fst kv) @ colon_sep indent @ stringify_at indent lv (snd kv)"

section \<open>The save handler of the annotation dialog\<close>

text \<open>
  \<open>handleSavePolygon\<close> of the annotation tabs. The component state it reads is a record; a
  polygon or a substation held in that state is a JSON object, given by its members. The new
  identifier (\<open>uuidv4()\<close>) and the time stamp (\<open>new Date().toISOString()\<close>) are parameters.
  The two requests of the handler go to the collection routes above; what \<open>response.json()\<close>
  gives the handler is the parsed text of the body the route printed.
\<close>

record 'n ui_state =
  dialogPolygon :: "(string \<times> 'n json) list option"
  selectedSubstation :: "(string \<times> 'n json) list option"
  selectedComponent :: string
  dialogAdditionalInfo :: string
  annotatorName :: string

text \<open>What the handler ends with: a plain return, a toast with its title, an exception that
  nothing catches, or the saved list (the dialog closes).\<close>

datatype 'n outcome = Returned | Toast string | Uncaught error | Saved "'n json list"

definition trim :: "string \<Rightarrow> string" where
  "trim s = rev (dropWhile isWhiteSpace (rev (dropWhile isWhiteSpace s)))"

text \<open>\<open>!v\<close> for a member that may be absent.\<close>

definition falsy :: "double json option \<Rightarrow> bool" where
  "falsy v =
     (v = None \<or> v = Some JNull \<or> v = Some (JBool False) \<or> v = Some (JNum (Dyadic 0 0))
      \<or> v = Some (JNum NegZero) \<or> v = Some (JNum NotANumber) \<or> v = Some (JStr []))"

text \<open>\<open>[...v]\<close>: the elements of an array, the characters of a string, a \<open>TypeError\<close> for
  anything else.\<close>

definition spread :: "'n json \<Rightarrow> error + 'n json list" where
  "spread v =
     (case v of
        JArr xs \<Rightarrow> Inr xs
      | JStr s \<Rightarrow> Inr (map (\<lambda>c. JStr [c]) s)
      | _ \<Rightarrow> Inl TypeError)"

text \<open>\<open>findIndex(p => p.id === id)\<close> from index \<open>k\<close> on: reading \<open>id\<close> from \<open>null\<close> throws.\<close>

fun findIndex_id :: "string \<Rightarrow> 'n json list \<Rightarrow> nat \<Rightarrow> error + nat option" where
  "findIndex_id i [] k = Inr None"
| "findIndex_id i (p # ps) k =
     (case p of
        JNull \<Rightarrow> Inl TypeError
      | JObj kvs \<Rightarrow>
          if map_of kvs ''id'' = Some (JStr i) then Inr (Some k) else findIndex_id i ps (Suc k)
      | _ \<Rightarrow> findIndex_id i ps (Suc k))"

text \<open>The object literal of the insert branch; a member whose value is \<open>undefined\<close> is not
  printed, so it is left out.\<close>

definition insertedPolygon ::
    "string \<Rightarrow> string \<Rightarrow> double ui_state \<Rightarrow> (string \<times> double json) list \<Rightarrow> double json \<Rightarrow>
     double json" where
  "insertedPolygon uuid now ui sub geometry =
     JObj ([(''id'', JStr uuid)]
           @ (case map_of sub ''id'' of None \<Rightarrow> [] | Some v \<Rightarrow> [(''substation_uuid'', v)])
           @ [(''label'', JStr (selectedComponent ui)),
              (''geometry'', geometry),
              (''created_at'', JStr now),
              (''substation_full_id'',
                 if falsy (map_of sub ''full_id'') then JNull else the (map_of sub ''full_id'')),
              (''from_osm'', JBool False),
              (''additional_info'',
                 if trim (dialogAdditionalInfo ui) = [] then JNull
                 else JStr (trim (dialogAdditionalInfo ui))),
              (''annotation_by'', JStr (annotatorName ui))])"

text \<open>The object literal of the update branch: the members of the stored polygon, with three
  of them set.\<close>

definition updatedPolygon :: "'n ui_state \<Rightarrow> 'n json \<Rightarrow> 'n json" where
  "updatedPolygon ui p =
     JObj (obj_put ''annotation_by'' (JStr (annotatorName ui))
            (obj_put ''additional_info''
               (if trim (dialogAdditionalInfo ui) = [] then JNull
                else JStr (trim (dialogAdditionalInfo ui)))
               (obj_put ''label'' (JStr (selectedComponent ui))
                  (case p of JObj kvs \<Rightarrow> kvs | _ \<Rightarrow> []))))"

text \<open>The \<open>try\<close> block of the handler.\<close>

definition handleSavePolygon_try ::
    "double parser \<Rightarrow> double printer \<Rightarrow> string \<Rightarrow> string \<Rightarrow> string \<Rightarrow> double ui_state \<Rightarrow>
     (string \<times> double json) list \<Rightarrow> string \<Rightarrow> bool \<Rightarrow> double json \<Rightarrow> data_fs \<Rightarrow>
     (error + double json list) \<times> data_fs" where
  "handleSavePolygon_try parse stringify cwd uuid now ui sub pid isTemp geometry \<sigma> =
     (case polygons_GET parse cwd \<sigma> of
        (response, \<sigma>1) \<Rightarrow>
          (case parse (stringify 0 (body response)) of
             None \<Rightarrow> (Inl SyntaxError, \<sigma>1)
           | Some allPolygons \<Rightarrow>
               (case (if isTemp then
                        (case spread allPolygons of
                           Inl e \<Rightarrow> Inl e
                         | Inr xs \<Rightarrow> Inr (xs @ [insertedPolygon uuid now ui sub geometry]))
                      else
                        (case allPolygons of
                           JArr xs \<Rightarrow>
                             (case findIndex_id pid xs 0 of
                                Inl e \<Rightarrow> Inl e
                              | Inr None \<Rightarrow> Inl (Error ''Polygon to update not found in file.'')
                              | Inr (Some polygonIndex) \<Rightarrow>
                                  Inr (xs[polygonIndex := updatedPolygon ui (xs ! polygonIndex)]))
                         | _ \<Rightarrow> Inl TypeError)) of
                  Inl e \<Rightarrow> (Inl e, \<sigma>1)
                | Inr newPolygonList \<Rightarrow>
                    (case polygons_POST parse stringify cwd (stringify 0 (JArr newPolygonList)) \<sigma>1 of
                       (postResponse, \<sigma>2) \<Rightarrow>
                         if 200 \<le> status postResponse \<and> status postResponse \<le> 299 then
                           (if JNull \<in> set newPolygonList then (Inl TypeError, \<sigma>2)
                            else (Inr newPolygonList, \<sigma>2))
                         else (Inl (Error ''Failed to save polygons''), \<sigma>2)))))"

definition handleSavePolygon ::
    "double parser \<Rightarrow> double printer \<Rightarrow> string \<Rightarrow> string \<Rightarrow> string \<Rightarrow> double ui_state \<Rightarrow>
     data_fs \<Rightarrow> double outcome \<times> data_fs" where
  "handleSavePolygon parse stringify cwd uuid now ui \<sigma> =
     (case (dialogPolygon ui, selectedSubstation ui) of
        (Some dp, Some sub) \<Rightarrow>
          if selectedComponent ui = [] then (Toast ''Component Required'', \<sigma>)
          else if selectedComponent ui = ''Other'' \<and> trim (dialogAdditionalInfo ui) = [] then
            (Toast ''Additional Info Required'', \<sigma>)
          else if annotatorName ui = [] then (Toast ''User Name Missing'', \<sigma>)
          else
            (case map_of dp ''id'' of
               Some (JStr pid) \<Rightarrow>
                 if falsy (map_of dp ''geometry'') then (Toast ''Geometry Missing'', \<sigma>)
                 else
                   (case handleSavePolygon_try parse stringify cwd uuid now ui sub pid
                           (starts_with ''temp-'' pid) (the (map_of dp ''geometry'')) \<sigma> of
                      (Inr newPolygonList, \<sigma>') \<Rightarrow> (Saved newPolygonList, \<sigma>')
                    | (Inl _, \<sigma>') \<Rightarrow>
                        (Toast ((if starts_with ''temp-'' pid then ''Save'' else ''Update'')
                                @ '' Failed''), \<sigma>'))
             | _ \<Rightarrow> (Uncaught TypeError, \<sigma>))
      | _ \<Rightarrow> (Returned, \<sigma>))"

section \<open>States and values of the examples\<close>

definition no_fault :: "fs_call \<Rightarrow> errno option" where
  "no_fault c = None"






text \<open>A substation at the coordinates \<open>[-111, 43.5]\<close>, a valid polygon at \<open>[1, 2]\<close>, and a
  polygon at \<open>[3, 4]\<close> labelled \<open>Other\<close> without additional
  information.\<close>

definition substation_s1 :: "(string \<times> double json) list" where
  "substation_s1 =
     [(''id'', JStr ''s1''), (''completed'', JBool False),
      (''geometry'', JObj [(''type'', JStr ''Point''), (''coordinates'', JArr [JNum (Dyadic (- 111) 0), JNum (Dyadic 87 (- 1))])]),
      (''created_at'', JStr ''2024-01-01T00:00:00Z'')]"

definition polygon_p1 :: "double json" where
  "polygon_p1 =
     JObj [(''id'', JStr ''p1''), (''substation_uuid'', JStr ''s1''), (''label'', JStr ''Bus bar''),
           (''geometry'', JObj [(''type'', JStr ''Point''), (''coordinates'', JArr [JNum (Dyadic 1 0), JNum (Dyadic 1 1)])]),
           (''created_at'', JStr ''2024-01-01T00:00:00Z''), (''from_osm'', JBool False)]"

definition polygon_other :: "double json" where
  "polygon_other =
     JObj [(''id'', JStr ''p2''), (''substation_uuid'', JStr ''s1''), (''label'', JStr ''Other''),
           (''geometry'', JObj [(''type'', JStr ''Point''),
                                (''coordinates'', JArr [JNum (Dyadic 3 0), JNum (Dyadic 1 2)])]),
           (''created_at'', JStr ''2024-01-02T00:00:00Z''), (''from_osm'', JBool False),
           (''additional_info'', JStr [])]"

text \<open>The data directory holding the polygon collection \<open>[polygon_p1]\<close>, under the working
  directory \<open>/app\<close>.\<close>

definition fs_one_polygon :: data_fs where
  "fs_one_polygon =
     \<lparr>dirExists = True,
      files = [''/app/app/data/component_polygons.json'' \<mapsto> json_stringify 2 (JArr [polygon_p1])],
      fault = no_fault\<rparr>"

text \<open>The dialog after a new polygon was drawn on substation \<open>s1\<close> and \<open>Other\<close> was chosen,
  with blank additional information.\<close>

definition ui_other_blank :: "double ui_state" where
  "ui_other_blank =
     \<lparr>dialogPolygon = Some [(''id'', JStr ''temp-1''), (''substation_uuid'', JStr ''s1''),
                           (''label'', JStr []),
                           (''geometry'', JObj [(''type'', JStr ''Point''),
                                                (''coordinates'',
                                                   JArr [JNum (Dyadic 3 0), JNum (Dyadic 1 2)])]),
                           (''created_at'', JStr ''2024-01-02T00:00:00Z''),
                           (''from_osm'', JBool False)],
      selectedSubstation = Some substation_s1,
      selectedComponent = ''Other'',
      dialogAdditionalInfo = ''  '',
      annotatorName = ''ann''\<rparr>"

section \<open>Properties of the tile route\<close>

lemma sint_pow2:
  assumes "k < 31"
  shows "sint (2 ^ k :: 32 word) = 2 ^ k"
proof -
  have lt: "(2::int) ^ k < 2 ^ 31"
    using assms by (intro power_strict_increasing) simp_all
  have "sint (2 ^ k :: 32 word) = (2 ^ k + 2 ^ 31) mod 2 ^ 32 - 2 ^ 31"
    using int_word_sint [where 'a = 32 and x = "2 ^ k"] by simp
  also have "\<dots> = 2 ^ k"
    using lt by simp
  finally show ?thesis .
qed

lemma sint_push_bit_1:
  assumes "k < 32"
  shows "sint (push_bit k (1 :: 32 word)) = (if k = 31 then - (2 ^ 31) else 2 ^ k)"
proof (cases "k = 31")
  case True
  then show ?thesis by simp
next
  case False
  with assms have "k < 31" by simp
  then show ?thesis using False by (simp add: push_bit_eq_mult sint_pow2)
qed

lemma shift_count_Fin: "nat (ToUint32 (Fin z) mod 32) = nat (z mod 32)"
proof -
  have "z mod 2 ^ 32 mod 32 = z mod 32"
    by (rule mod_mod_cancel) simp
  then show ?thesis by (simp add: ToUint32_def)
qed

lemma shl1_Fin: "shl1 (Fin z) = Fin (if z mod 32 = 31 then - (2 ^ 31) else 2 ^ nat (z mod 32))"
proof -
  have "nat (z mod 32) < 32" by simp
  from sint_push_bit_1 [OF this] show ?thesis
    unfolding shl1_def shift_count_Fin by (auto simp: nat_eq_iff)
qed

lemma shl1_small:
  assumes "0 \<le> z" "z \<le> 30"
  shows "shl1 (Fin z) = Fin (2 ^ nat z)"
proof -
  from assms have "z mod 32 = z" by simp
  with assms show ?thesis by (simp add: shl1_Fin)
qed

lemma path_normalize_nonempty: "path_normalize p \<noteq> []"
  by (auto simp: path_normalize_def Let_def)

lemma path_join_nonempty: "path_join args \<noteq> []"
  by (simp add: path_join_def Let_def path_normalize_nonempty)

lemma GET_four:
  "GET cwd readFileSync [fullId, zStr, xStr, yPng] =
     (case readFileSync (finalFilePath cwd fullId zStr xStr yPng) of
        Inr fileBuffer \<Rightarrow>
          \<lparr>status = 200, headers = [(''Content-Type'', ''image/png'')], body = Buffer fileBuffer\<rparr>
      | Inl error \<Rightarrow>
          \<lparr>status = 400, headers = [], body = Text ''Tile not found on server ''\<rparr>)"
  by (simp add: GET_def TILE_BASE_PATH_def path_join_nonempty)

lemma GET_not_four:
  "length pathSegments \<noteq> 4 \<Longrightarrow>
   GET cwd readFileSync pathSegments =
     \<lparr>status = 400, headers = [],
      body = Text ''Invalid tile URL format. Expected /api/tiles/{id}/{z}/{x}/{y}.png''\<rparr>"
  by (auto simp: GET_def split: list.splits)

text \<open>
  Claim C1, as the route has it. For a zoom \<open>0 \<le> z \<le> 30\<close> and a row \<open>0 \<le> y < 2 ^ z\<close> the
  flip computed by the route is \<open>2 ^ z - 1 - y\<close>, flipping twice gives \<open>y\<close> back, and the route
  flips the requested row once: the file it reads is named after \<open>2 ^ z - 1 - y\<close>. Beyond
  zoom 30 the shift \<open>1 << z\<close> no longer is \<open>2 ^ z\<close>, as the example after the theorem shows.
\<close>

theorem tms_flip_applied_once:
  assumes "parseInt zStr = Fin z" and "parseInt (path_parse_name yPng) = Fin y"
    and "0 \<le> z" and "z \<le> 30" and "0 \<le> y" and "y < 2 ^ nat z"
  shows "tms (Fin y) (Fin z) = Fin (2 ^ nat z - 1 - y)
       \<and> tms (tms (Fin y) (Fin z)) (Fin z) = Fin y
       \<and> yToUse zStr yPng = tms (Fin y) (Fin z)
       \<and> finalFilePath cwd fullId zStr xStr yPng =
           path_join [TILE_BASE_PATH cwd, fullId, zStr, xStr,
                      numberToString (Fin (2 ^ nat z - 1 - y)) @ ''.png'']
       \<and> GET cwd readFileSync [fullId, zStr, xStr, yPng] =
           (case readFileSync (path_join [TILE_BASE_PATH cwd, fullId, zStr, xStr,
                      numberToString (Fin (2 ^ nat z - 1 - y)) @ ''.png'']) of
              Inr fileBuffer \<Rightarrow>
                \<lparr>status = 200, headers = [(''Content-Type'', ''image/png'')],
                 body = Buffer fileBuffer\<rparr>
            | Inl error \<Rightarrow>
                \<lparr>status = 400, headers = [], body = Text ''Tile not found on server ''\<rparr>)"
proof -
  have s: "shl1 (Fin z) = Fin (2 ^ nat z)"
    using assms(3,4) by (rule shl1_small)
  have t: "tms (Fin y) (Fin z) = Fin (2 ^ nat z - 1 - y)"
    by (simp add: tms_def s)
  have i: "tms (tms (Fin y) (Fin z)) (Fin z) = Fin y"
    by (simp add: tms_def s)
  have u: "yToUse zStr yPng = tms (Fin y) (Fin z)"
    by (simp add: yToUse_def CONVERT_Y_TO_TMS_def assms(1,2))
  have p: "finalFilePath cwd fullId zStr xStr yPng =
           path_join [TILE_BASE_PATH cwd, fullId, zStr, xStr,
                      numberToString (Fin (2 ^ nat z - 1 - y)) @ ''.png'']"
    by (simp add: finalFilePath_def u t)
  show ?thesis
    using t i u p by (simp add: GET_four)
qed

theorem tms_flip_applied_once_witness:
  "tms (Fin 7) (Fin 3) = Fin 0 \<and> tms (tms (Fin 7) (Fin 3)) (Fin 3) = Fin 7
   \<and> yToUse ''3'' ''7.png'' = tms (Fin 7) (Fin 3)
   \<and> finalFilePath ''/app'' ''sub1'' ''3'' ''2'' ''7.png'' = ''/app/public/tiles/sub1/3/2/0.png''
   \<and> GET ''/app'' fs_no_tiles [''sub1'', ''3'', ''2'', ''7.png''] =
        \<lparr>status = 400, headers = [], body = Text ''Tile not found on server ''\<rparr>"
proof -
  have z: "parseInt ''3'' = Fin 3" by code_simp
  have y: "parseInt (path_parse_name ''7.png'') = Fin 7" by code_simp
  have j: "path_join [TILE_BASE_PATH ''/app'', ''sub1'', ''3'', ''2'',
                      numberToString (Fin 0) @ ''.png''] = ''/app/public/tiles/sub1/3/2/0.png''"
    by code_simp
  have k: "tms (Fin 0) (Fin 3) = Fin 7" by code_simp
  from tms_flip_applied_once [OF z y, of "''/app''" "''sub1''" "''2''" fs_no_tiles]
  show ?thesis by (simp add: j k fs_no_tiles_def)
qed

theorem tms_flip_counterexample:
  "(0::int) \<le> 5 \<and> (5::int) < 2 ^ 32
   \<and> yToUse ''32'' ''5.png'' = Fin (- 5)
   \<and> yToUse ''32'' ''5.png'' \<noteq> Fin (2 ^ 32 - 1 - 5)
   \<and> finalFilePath ''/app'' ''sub1'' ''32'' ''0'' ''5.png'' = ''/app/public/tiles/sub1/32/0/-5.png''"
proof -
  have a: "yToUse ''32'' ''5.png'' = Fin (- 5)" by code_simp
  have b: "finalFilePath ''/app'' ''sub1'' ''32'' ''0'' ''5.png'' = ''/app/public/tiles/sub1/32/0/-5.png''"
    by code_simp
  show ?thesis by (simp add: a b)
qed


text \<open>
  Claim C2. The request for dataset \<open>sub1\<close>, zoom 3, column 2, row 7 reads the stored tile
  \<open>sub1/3/2/0.png\<close> under the tile directory; the row used is 0 for zoom 0 and row 0, 7 for zoom
  3 and row 0, and 0 for zoom 3 and row 7.
\<close>

theorem tile_lookup_examples:
  "finalFilePath cwd ''sub1'' ''3'' ''2'' ''7.png'' =
     path_join [TILE_BASE_PATH cwd, ''sub1'', ''3'', ''2'', ''0.png'']
   \<and> join_slash [''sub1'', ''3'', ''2'', numberToString (yToUse ''3'' ''7.png'') @ ''.png''] =
       ''sub1/3/2/0.png''
   \<and> finalFilePath ''/app'' ''sub1'' ''3'' ''2'' ''7.png'' = ''/app/public/tiles/sub1/3/2/0.png''
   \<and> GET cwd readFileSync [''sub1'', ''3'', ''2'', ''7.png''] =
       (case readFileSync (path_join [TILE_BASE_PATH cwd, ''sub1'', ''3'', ''2'', ''0.png'']) of
          Inr fileBuffer \<Rightarrow>
            \<lparr>status = 200, headers = [(''Content-Type'', ''image/png'')], body = Buffer fileBuffer\<rparr>
        | Inl error \<Rightarrow>
            \<lparr>status = 400, headers = [], body = Text ''Tile not found on server ''\<rparr>)
   \<and> yToUse ''0'' ''0.png'' = Fin 0
   \<and> yToUse ''3'' ''0.png'' = Fin 7
   \<and> yToUse ''3'' ''7.png'' = Fin 0"
proof -
  have y37: "yToUse ''3'' ''7.png'' = Fin 0" by code_simp
  have y30: "yToUse ''3'' ''0.png'' = Fin 7" by code_simp
  have y00: "yToUse ''0'' ''0.png'' = Fin 0" by code_simp
  have n0: "numberToString (Fin 0) = ''0''" by code_simp
  have p: "finalFilePath cwd ''sub1'' ''3'' ''2'' ''7.png'' =
     path_join [TILE_BASE_PATH cwd, ''sub1'', ''3'', ''2'', ''0.png'']"
    by (simp add: finalFilePath_def y37 n0)
  have q: "finalFilePath ''/app'' ''sub1'' ''3'' ''2'' ''7.png'' = ''/app/public/tiles/sub1/3/2/0.png''"
    by code_simp
  show ?thesis
    by (simp add: y37 y30 y00 n0 p q GET_four)
qed

theorem tile_error_counterexample:
  "GET ''/app'' fs_denied [''sub1'', ''3'', ''2'', ''7.png''] =
     GET ''/app'' fs_no_tiles [''sub1'', ''3'', ''2'', ''7.png'']
   \<and> status (GET ''/app'' fs_denied [''sub1'', ''3'', ''2'', ''7.png'']) = 400
   \<and> status (GET ''/app'' fs_no_tiles [''sub1'', ''3'', ''2'', ''7.png'']) =
       status (GET ''/app'' fs_no_tiles [''sub1'', ''3'', ''2''])"
  by (simp add: GET_four fs_denied_def fs_no_tiles_def GET_not_four)

text \<open>
  Claim C6, as the route has it. Whenever the file of a four-segment request cannot be read,
  for whatever reason, the answer is status 400 with the text \<open>Tile not found on server\<close>: a
  missing tile is not reported as a server fault, and neither is any other read error. A request
  with another segment count also has status 400 and differs by its text only. The zoom and
  row segments are those on which the numbers of this theory are exact.
\<close>

theorem tile_read_failure_response:
  assumes "exact_segment zStr" and "exact_segment (path_parse_name yPng)"
    and "readFileSync (finalFilePath cwd fullId zStr xStr yPng) = Inl e"
  shows "GET cwd readFileSync [fullId, zStr, xStr, yPng] =
           \<lparr>status = 400, headers = [], body = Text ''Tile not found on server ''\<rparr>
       \<and> (length other \<noteq> 4 \<longrightarrow>
            status (GET cwd readFileSync other) = 400 \<and>
            body (GET cwd readFileSync other) \<noteq> body (GET cwd readFileSync [fullId, zStr, xStr, yPng]))"
  using assms(3) by (simp add: GET_four GET_not_four)

theorem tile_read_failure_response_witness:
  "GET ''/app'' fs_denied [''sub1'', ''3'', ''2'', ''7.png''] =
     \<lparr>status = 400, headers = [], body = Text ''Tile not found on server ''\<rparr>
   \<and> status (GET ''/app'' fs_denied [''sub1'', ''3'', ''2'']) = 400
   \<and> body (GET ''/app'' fs_denied [''sub1'', ''3'', ''2'']) \<noteq>
       body (GET ''/app'' fs_denied [''sub1'', ''3'', ''2'', ''7.png''])"
proof -
  have r: "fs_denied (finalFilePath ''/app'' ''sub1'' ''3'' ''2'' ''7.png'') = Inl EACCES"
    by (simp add: fs_denied_def)
  have z: "exact_segment ''3''" by code_simp
  have y: "exact_segment (path_parse_name ''7.png'')" by code_simp
  from tile_read_failure_response
         [where readFileSync = fs_denied and cwd = "''/app''" and fullId = "''sub1''"
            and zStr = "''3''" and xStr = "''2''" and yPng = "''7.png''"
            and other = "[''sub1'', ''3'', ''2'']", OF z y r]
  have w: "GET ''/app'' fs_denied [''sub1'', ''3'', ''2'', ''7.png''] =
           \<lparr>status = 400, headers = [], body = Text ''Tile not found on server ''\<rparr>"
    and v: "length [''sub1'', ''3'', ''2''] \<noteq> 4 \<longrightarrow>
            status (GET ''/app'' fs_denied [''sub1'', ''3'', ''2'']) = 400 \<and>
            body (GET ''/app'' fs_denied [''sub1'', ''3'', ''2'']) \<noteq>
            body (GET ''/app'' fs_denied [''sub1'', ''3'', ''2'', ''7.png''])"
    by blast+
  have l: "length [''sub1'', ''3'', ''2''] \<noteq> (4::nat)" by simp
  from v l w show ?thesis by blast
qed

text \<open>
  Claim C7. A request whose path does not have exactly four segments is answered with status
  400 and the \<open>Invalid tile URL format\<close> text, whatever the segments hold and whatever the file
  system holds; it is not answered as a missing tile.
\<close>

theorem wrong_segment_count_rejected:
  assumes "length pathSegments \<noteq> 4"
  shows "GET cwd readFileSync pathSegments =
           \<lparr>status = 400, headers = [],
            body = Text ''Invalid tile URL format. Expected /api/tiles/{id}/{z}/{x}/{y}.png''\<rparr>
       \<and> body (GET cwd readFileSync pathSegments) \<noteq> Text ''Tile not found on server ''"
  using assms by (simp add: GET_not_four)

theorem wrong_segment_count_rejected_witness:
  "GET ''/app'' fs_one_tile [''sub1'', ''31'', ''0.png''] =
     \<lparr>status = 400, headers = [],
      body = Text ''Invalid tile URL format. Expected /api/tiles/{id}/{z}/{x}/{y}.png''\<rparr>
   \<and> GET ''/app'' fs_no_tiles [''sub1'', ''3'', ''2'', ''7'', ''7.png''] =
     \<lparr>status = 400, headers = [],
      body = Text ''Invalid tile URL format. Expected /api/tiles/{id}/{z}/{x}/{y}.png''\<rparr>"
  using wrong_segment_count_rejected [of "[''sub1'', ''31'', ''0.png'']" "''/app''" fs_one_tile]
    wrong_segment_count_rejected [of "[''sub1'', ''3'', ''2'', ''7'', ''7.png'']" "''/app''" fs_no_tiles]
  by simp

theorem zoom_overflow_counterexample:
  "shl1 (parseInt ''31'') = Fin (- 2147483648)
   \<and> yToUse ''31'' ''0.png'' = Fin (- 2147483649)
   \<and> GET ''/app'' fs_one_tile [''sub1'', ''31'', ''0'', ''0.png''] =
       \<lparr>status = 200, headers = [(''Content-Type'', ''image/png'')],
        body = Buffer [137, 80, 78, 71]\<rparr>"
proof -
  have a: "shl1 (parseInt ''31'') = Fin (- 2147483648)" by code_simp
  have b: "yToUse ''31'' ''0.png'' = Fin (- 2147483649)" by code_simp
  have c: "finalFilePath ''/app'' ''sub1'' ''31'' ''0'' ''0.png'' =
             ''/app/public/tiles/sub1/31/0/-2147483649.png''" by code_simp
  show ?thesis by (simp add: a b c GET_four fs_one_tile_def)
qed

text \<open>
  Claim C9, as the route has it. The route does not check the zoom: every four-segment request
  is looked up. For a zoom segment that \<open>parseInt\<close> reads as an integer \<open>z\<close> of magnitude
  below \<open>2 ^ 52\<close>, \<open>1 << z\<close> is \<open>2 ^ z\<close> when \<open>0 \<le> z \<le> 30\<close>; for any other such \<open>z\<close> the
  shift count is \<open>z mod 32\<close> and the result a signed 32-bit value, and the row is computed
  from that value.
\<close>

theorem zoom_unchecked:
  assumes "exact_segment zStr" and "exact_segment (path_parse_name yPng)"
  shows "(parseInt zStr = Fin z \<longrightarrow>
            shl1 (parseInt zStr) = Fin (if z mod 32 = 31 then - (2 ^ 31) else 2 ^ nat (z mod 32)))
   \<and> (parseInt zStr = Fin z \<and> 0 \<le> z \<and> z \<le> 30 \<longrightarrow> shl1 (parseInt zStr) = Fin (2 ^ nat z))
   \<and> yToUse zStr yPng =
       minus_number (minus_number (shl1 (parseInt zStr)) (Fin 1)) (parseInt (path_parse_name yPng))
   \<and> GET cwd readFileSync [fullId, zStr, xStr, yPng] =
       (case readFileSync (path_join [TILE_BASE_PATH cwd, fullId, zStr, xStr,
                                      numberToString (yToUse zStr yPng) @ ''.png'']) of
          Inr fileBuffer \<Rightarrow>
            \<lparr>status = 200, headers = [(''Content-Type'', ''image/png'')], body = Buffer fileBuffer\<rparr>
        | Inl error \<Rightarrow>
            \<lparr>status = 400, headers = [], body = Text ''Tile not found on server ''\<rparr>)"
  by (simp add: shl1_Fin shl1_small yToUse_def CONVERT_Y_TO_TMS_def tms_def GET_four
      finalFilePath_def)

theorem zoom_unchecked_witness:
  "shl1 (parseInt ''32'') = Fin 1
   \<and> yToUse ''32'' ''5.png'' = minus_number (minus_number (Fin 1) (Fin 1)) (Fin 5)
   \<and> GET ''/app'' fs_no_tiles [''sub1'', ''32'', ''0'', ''5.png''] =
       \<lparr>status = 400, headers = [], body = Text ''Tile not found on server ''\<rparr>"
proof -
  have z: "exact_segment ''32''" by code_simp
  have y: "exact_segment (path_parse_name ''5.png'')" by code_simp
  have pz: "parseInt ''32'' = Fin 32" by code_simp
  have py: "parseInt (path_parse_name ''5.png'') = Fin 5" by code_simp
  note t = zoom_unchecked [where zStr = "''32''" and yPng = "''5.png''" and z = 32
      and cwd = "''/app''" and readFileSync = fs_no_tiles and fullId = "''sub1''" and xStr = "''0''",
      OF z y]
  from t pz have a: "shl1 (parseInt ''32'') = Fin 1" by simp
  from t have b: "yToUse ''32'' ''5.png'' =
       minus_number (minus_number (shl1 (parseInt ''32'')) (Fin 1)) (parseInt (path_parse_name ''5.png''))"
    by blast
  from t have c: "GET ''/app'' fs_no_tiles [''sub1'', ''32'', ''0'', ''5.png''] =
       \<lparr>status = 400, headers = [], body = Text ''Tile not found on server ''\<rparr>"
    by (simp add: fs_no_tiles_def)
  from a b c py show ?thesis by simp
qed

section \<open>The JSON printer and parser take a value back to itself\<close>

subsection \<open>Numbers\<close>

lemma digit_char:
  assumes "0 \<le> d" "d < 10"
  shows "isDigit (char_of (48 + d))" and "digitValue (char_of (48 + d)) = d"
  using assms by (simp_all add: isDigit_def digitValue_def)

lemma decimal_nonempty: "decimal n \<noteq> []"
  by (subst decimal.simps) simp

lemma decimal_digits: "0 \<le> n \<Longrightarrow> list_all isDigit (decimal n)"
proof (induction n rule: decimal.induct)
  case (1 n)
  show ?case
  proof (cases "n < 10")
    case True
    with "1.prems" show ?thesis
      by (subst decimal.simps) (simp add: digit_char)
  next
    case False
    then have "0 \<le> n div 10" "0 \<le> n mod 10" "n mod 10 < 10" using "1.prems" by simp_all
    with False "1.IH" show ?thesis
      by (subst decimal.simps) (simp add: digit_char)
  qed
qed

lemma digits_value_snoc: "digits_value (ds @ [c]) = 10 * digits_value ds + digitValue c"
  by (simp add: digits_value_def)

lemma decimal_value: "0 \<le> n \<Longrightarrow> digits_value (decimal n) = n"
proof (induction n rule: decimal.induct)
  case (1 n)
  show ?case
  proof (cases "n < 10")
    case True
    with "1.prems" show ?thesis
      by (subst decimal.simps) (simp add: digits_value_def digit_char)
  next
    case False
    then have "0 \<le> n div 10" "0 \<le> n mod 10" "n mod 10 < 10" using "1.prems" by simp_all
    with False "1.IH" show ?thesis
      by (subst decimal.simps) (simp add: digits_value_snoc digit_char)
  qed
qed

lemma decimal_hd_zero: "0 \<le> n \<Longrightarrow> hd (decimal n) = CHR ''0'' \<Longrightarrow> n = 0"
proof (induction n rule: decimal.induct)
  case (1 n)
  show ?case
  proof (cases "n < 10")
    case True
    have "digitValue (hd (decimal n)) = n"
      using True "1.prems"(1) by (subst decimal.simps) (simp add: digit_char)
    then show ?thesis using "1.prems"(2) by (simp add: digitValue_def)
  next
    case False
    then have nn: "0 \<le> n div 10" using "1.prems" by simp
    have "hd (decimal n) = hd (decimal (n div 10))"
      using False by (subst decimal.simps) (simp add: decimal_nonempty)
    then have "n div 10 = 0" using "1.IH" [OF False nn] "1.prems"(2) by simp
    with False "1.prems"(1) show ?thesis by simp
  qed
qed

lemma decimal_zero: "decimal 0 = ''0''"
  by code_simp

lemma takeWhile_digits:
  assumes "list_all isDigit ds" and "rest = [] \<or> \<not> isDigit (hd rest)"
  shows "takeWhile isDigit (ds @ rest) = ds" and "dropWhile isDigit (ds @ rest) = rest"
proof -
  have a: "takeWhile isDigit rest = []" "dropWhile isDigit rest = rest"
    using assms(2) by (cases rest; simp)+
  show "takeWhile isDigit (ds @ rest) = ds" "dropWhile isDigit (ds @ rest) = rest"
    using assms(1) a by (induction ds) (simp_all)
qed

lemma take_digits_append:
  assumes "list_all isDigit ds" and "rest = [] \<or> \<not> isDigit (hd rest)"
  shows "take_digits (ds @ rest) = (ds, rest)"
  using takeWhile_digits [OF assms] by (simp add: take_digits_def)

lemma digits_value_append:
  "digits_value (a @ b) = digits_value a * 10 ^ length b + digits_value b"
proof (induction b rule: rev_induct)
  case Nil
  show ?case by (simp add: digits_value_def)
next
  case (snoc c b)
  have "digits_value (a @ b @ [c]) = 10 * digits_value (a @ b) + digitValue c"
    using digits_value_snoc [of "a @ b" c] by simp
  then show ?case
    by (simp add: snoc.IH digits_value_snoc algebra_simps)
qed

lemma digits_value_zeros: "digits_value (replicate j CHR ''0'') = 0"
proof (induction j)
  case 0
  show ?case by (simp add: digits_value_def)
next
  case (Suc j)
  have "replicate (Suc j) CHR ''0'' = replicate j CHR ''0'' @ [CHR ''0'']"
    by (simp add: replicate_append_same)
  then show ?case
    using Suc by (simp only: digits_value_snoc) (simp add: digitValue_def)
qed

lemma zeros_digits: "list_all isDigit (replicate j CHR ''0'')"
  by (simp add: list_all_iff isDigit_def)

lemma strip10_fixed: "s mod 10 \<noteq> 0 \<Longrightarrow> strip10 s t = (s, t)"
  by (subst strip10.simps) simp

lemma strip10_step: "s \<noteq> 0 \<Longrightarrow> strip10 (s * 10) (t - 1) = strip10 s t"
  by (subst strip10.simps) simp

lemma strip10_shift: "s \<noteq> 0 \<Longrightarrow> strip10 (s * 10 ^ j) (t - int j) = strip10 s t"
proof (induction j arbitrary: t)
  case 0
  show ?case by simp
next
  case (Suc j)
  have "strip10 (s * 10 ^ Suc j) (t - int (Suc j)) = strip10 ((s * 10 ^ j) * 10) ((t - int j) - 1)"
    by (simp add: algebra_simps)
  also have "\<dots> = strip10 (s * 10 ^ j) (t - int j)"
    using Suc.prems by (intro strip10_step) simp
  also have "\<dots> = strip10 s t"
    using Suc by simp
  finally show ?case .
qed

lemma strip10_result:
  "0 < s \<Longrightarrow> strip10 s t = (s', t') \<Longrightarrow>
   0 < s' \<and> s' mod 10 \<noteq> 0 \<and> t \<le> t' \<and> s = s' * 10 ^ nat (t' - t)"
proof (induction s t rule: strip10.induct)
  case (1 s t)
  show ?case
  proof (cases "s mod 10 = 0")
    case True
    have pos: "0 < s div 10" using "1.prems"(1) True by (simp add: pos_imp_zdiv_pos_iff) presburger
    have r: "strip10 (s div 10) (t + 1) = (s', t')"
      using "1.prems" True by (subst (asm) strip10.simps) simp
    from "1.IH" [OF _ pos r] True "1.prems"(1)
    have ih: "0 < s'" "s' mod 10 \<noteq> 0" "t + 1 \<le> t'" "s div 10 = s' * 10 ^ nat (t' - (t + 1))"
      by simp_all
    have "nat (t' - t) = Suc (nat (t' - (t + 1)))" using ih(3) by simp
    moreover have "s = (s div 10) * 10" using True by presburger
    ultimately have "s = s' * 10 ^ nat (t' - t)" using ih(4) by simp
    with ih show ?thesis by simp
  next
    case False
    then have "strip10 s t = (s, t)" by (rule strip10_fixed)
    with "1.prems" False show ?thesis by simp
  qed
qed

lemma strip10_idem:
  assumes "0 < s" and "strip10 s t = (s', t')"
  shows "strip10 s' t' = (s', t')"
  using strip10_result [OF assms] by (simp add: strip10_fixed)

lemma magnitude_strip10:
  assumes "0 < s" and "strip10 s t = (s', t')"
  shows "magnitude s' t' = magnitude s t"
  using strip10_idem [OF assms] assms(2) by (simp add: magnitude_def)

lemma magnitude_shift: "0 < s \<Longrightarrow> magnitude (s * 10 ^ j) (t - int j) = magnitude s t"
  using strip10_shift [of s j t] by (simp add: magnitude_def)

lemma to_double_shift: "0 < s \<Longrightarrow> to_double neg (s * 10 ^ j) (t - int j) = to_double neg s t"
  by (simp add: to_double_def magnitude_shift)

lemma strip2_odd: "odd m \<Longrightarrow> strip2 m e = (m, e)"
  by (subst strip2.simps) simp

lemma strip2_shift: "odd m \<Longrightarrow> strip2 (m * 2 ^ j) e = (m, e + int j)"
proof (induction j arbitrary: e)
  case 0
  then show ?case by (simp add: strip2_odd)
next
  case (Suc j)
  have nz: "m * 2 ^ Suc j \<noteq> 0" using Suc.prems by auto
  have "strip2 (m * 2 ^ Suc j) e = strip2 (m * 2 ^ Suc j div 2) (e + 1)"
    using nz by (subst strip2.simps) simp
  also have "m * 2 ^ Suc j div 2 = m * 2 ^ j" by simp
  finally show ?case using Suc by simp
qed

lemma two_adic:
  fixes s m :: int
  assumes "s * 10 ^ t = m * 2 ^ e" and "odd m"
  shows "t \<le> e \<and> s * 5 ^ t = m * 2 ^ (e - t)"
proof -
  have ten: "(10::int) ^ t = 5 ^ t * 2 ^ t"
    by (simp add: power_mult_distrib [symmetric])
  have le: "t \<le> e"
  proof (rule ccontr)
    assume "\<not> t \<le> e"
    then have lt: "e < t" by simp
    then have "(2::int) ^ t = 2 ^ e * 2 ^ (t - e)"
      by (simp add: power_add [symmetric])
    with assms(1) ten have "(s * 5 ^ t * 2 ^ (t - e)) * 2 ^ e = m * 2 ^ e"
      by (simp add: algebra_simps)
    then have "s * 5 ^ t * 2 ^ (t - e) = m" by simp
    moreover have "even ((2::int) ^ (t - e))" using lt by simp
    ultimately show False using assms(2) by (metis even_mult_iff)
  qed
  then have "(2::int) ^ e = 2 ^ (e - t) * 2 ^ t"
    by (simp add: power_add [symmetric])
  with assms(1) ten have "(s * 5 ^ t) * 2 ^ t = (m * 2 ^ (e - t)) * 2 ^ t"
    by (simp add: algebra_simps)
  then have "s * 5 ^ t = m * 2 ^ (e - t)" by simp
  with le show ?thesis by simp
qed

lemma odd_mod10: "odd x \<Longrightarrow> x mod 10 \<noteq> 0" for x :: int
  by presburger

lemma first_some_SomeD: "first_some f xs = Some y \<Longrightarrow> \<exists>x \<in> set xs. f x = Some y"
  by (induction xs) (auto split: option.splits)

lemma accepted_SomeD:
  "accepted m e n k = Some (c, t) \<Longrightarrow> 0 < c \<and> magnitude c t = Some (m, e)"
  by (auto simp: accepted_def Let_def find_Some_iff)

lemma is_double_guard: "is_double m e \<Longrightarrow> - 1074 \<le> e \<and> e \<le> 1024 \<and> odd m \<and> 0 < m"
  by (simp add: is_double_def)

lemma exact_nonneg:
  assumes d: "is_double m e" and e: "0 \<le> e" and st: "strip10 (m * 2 ^ nat e) 0 = (s, t)"
  shows "0 < s \<and> magnitude s t = Some (m, e)"
proof -
  from d have g: "- 1074 \<le> e" "e \<le> 1024" "odd m" "0 < m"
    using is_double_guard by blast+
  have pos: "0 < m * 2 ^ nat e" using g(4) by simp
  from strip10_result [OF pos st]
  have r: "0 < s" "s mod 10 \<noteq> 0" "0 \<le> t" "m * 2 ^ nat e = s * 10 ^ nat (t - 0)"
    by simp_all
  then have eq: "s * 10 ^ nat t = m * 2 ^ nat e" by simp
  from two_adic [OF eq g(3)]
  have le: "nat t \<le> nat e" and five: "s * 5 ^ nat t = m * 2 ^ (nat e - nat t)"
    by simp_all
  have te: "t \<le> e" using le r(3) e by simp
  have "strip2 (s * 5 ^ nat t) t = (m, t + int (nat e - nat t))"
    unfolding five using g(3) by (rule strip2_shift)
  moreover have "t + int (nat e - nat t) = e" using te r(3) by simp
  ultimately have x: "exact_dyadic s t = Some (m, e)"
    using r(3) by (simp add: exact_dyadic_def)
  have "magnitude s t = Some (m, e)"
    using strip10_fixed [OF r(2), of t] x d r(3) te g(2)
    by (simp add: magnitude_def)
  with r(1) show ?thesis by simp
qed

lemma exact_neg:
  assumes d: "is_double m e" and e: "e < 0"
  shows "0 < m * 5 ^ nat (- e) \<and> magnitude (m * 5 ^ nat (- e)) e = Some (m, e)"
proof -
  from d have g: "- 1074 \<le> e" "e \<le> 1024" "odd m" "0 < m"
    using is_double_guard by blast+
  let ?s = "m * 5 ^ nat (- e)"
  have pos: "0 < ?s" using g(4) by simp
  have "odd ?s" using g(3) by simp
  then have "?s mod 10 \<noteq> 0" by (rule odd_mod10)
  then have f: "strip10 ?s e = (?s, e)" by (rule strip10_fixed)
  have "?s mod 5 ^ nat (- e) = 0" by simp
  moreover have "?s div 5 ^ nat (- e) = m" by simp
  ultimately have x: "exact_dyadic ?s e = Some (m, e)"
    using e g(3) by (simp add: exact_dyadic_def strip2_odd)
  have "magnitude ?s e = Some (m, e)"
    using f x d g(1,2) by (simp add: magnitude_def)
  with pos show ?thesis by simp
qed

lemma search_SomeD:
  assumes "search m e = Some (c, t)"
  shows "0 < c \<and> magnitude c t = Some (m, e)"
proof -
  from assms obtain n k where "accepted m e n k = Some (c, t)"
    unfolding search_def Let_def by (blast dest: first_some_SomeD)
  then show ?thesis by (rule accepted_SomeD)
qed

lemma shortest_magnitude:
  assumes d: "is_double m e" and sh: "shortest m e = (s, t)"
  shows "0 < s \<and> magnitude s t = Some (m, e)"
proof (cases "search m e")
  case None
  show ?thesis
  proof (cases "0 \<le> e")
    case True
    with None sh have "strip10 (m * 2 ^ nat e) 0 = (s, t)"
      by (simp add: shortest_def)
    with d True show ?thesis by (intro exact_nonneg)
  next
    case False
    with None have "shortest m e = (m * 5 ^ nat (- e), e)"
      by (simp add: shortest_def)
    with sh have "s = m * 5 ^ nat (- e)" "t = e" by (metis prod.inject)+
    with exact_neg [OF d] False show ?thesis by simp
  qed
next
  case (Some ct)
  obtain c t0 where ct: "ct = (c, t0)" by (cases ct)
  from search_SomeD Some ct have c: "0 < c" "magnitude c t0 = Some (m, e)" by blast+
  from Some ct sh have st: "strip10 c t0 = (s, t)"
    by (simp add: shortest_def)
  from strip10_result [OF c(1) st] magnitude_strip10 [OF c(1) st] c(2)
  show ?thesis by simp
qed

lemma not_digit_simps:
  "\<not> isDigit CHR ''.''" "\<not> isDigit CHR ''e''" "\<not> isDigit CHR ''E''" "\<not> isDigit CHR ''-''"
  "\<not> isDigit CHR ''+''" "isDigit CHR ''0''"
  by (simp_all add: isDigit_def)

lemma parse_fraction_none:
  "rest = [] \<or> hd rest \<noteq> CHR ''.'' \<Longrightarrow> parse_fraction rest = Some ([], rest)"
  by (auto simp: parse_fraction_def)

lemma parse_fraction_some:
  assumes "list_all isDigit fp" and "fp \<noteq> []" and "r = [] \<or> \<not> isDigit (hd r)"
  shows "parse_fraction (CHR ''.'' # fp @ r) = Some (fp, r)"
  using assms(2) by (simp add: parse_fraction_def take_digits_append [OF assms(1,3)])

lemma parse_exponent_none:
  "rest = [] \<or> (hd rest \<noteq> CHR ''e'' \<and> hd rest \<noteq> CHR ''E'') \<Longrightarrow> parse_exponent rest = Some (0, rest)"
  by (auto simp: parse_exponent_def)

lemma parse_exponent_plus:
  assumes "0 \<le> n" and "r = [] \<or> \<not> isDigit (hd r)"
  shows "parse_exponent (CHR ''e'' # CHR ''+'' # decimal n @ r) = Some (n, r)"
  using decimal_nonempty [of n] decimal_value [OF assms(1)]
  by (simp add: parse_exponent_def Let_def take_digits_append [OF decimal_digits [OF assms(1)] assms(2)])

lemma parse_exponent_minus:
  assumes "0 \<le> n" and "r = [] \<or> \<not> isDigit (hd r)"
  shows "parse_exponent (CHR ''e'' # CHR ''-'' # decimal n @ r) = Some (- n, r)"
  using decimal_nonempty [of n] decimal_value [OF assms(1)]
  by (simp add: parse_exponent_def Let_def take_digits_append [OF decimal_digits [OF assms(1)] assms(2)])

lemma parse_number_parts:
  assumes ip: "list_all isDigit ip" "ip \<noteq> []" "\<not> (hd ip = CHR ''0'' \<and> tl ip \<noteq> [])"
    and r1: "r1 = [] \<or> \<not> isDigit (hd r1)"
    and fr: "parse_fraction r1 = Some (fp, r2)"
    and ex: "parse_exponent r2 = Some (ex, r3)"
  shows "parse_number (ip @ r1) =
           Some (to_double False (digits_value (ip @ fp)) (ex - int (length fp)), r3)"
    and "parse_number (CHR ''-'' # ip @ r1) =
           Some (to_double True (digits_value (ip @ fp)) (ex - int (length fp)), r3)"
proof -
  have h: "hd (ip @ r1) \<noteq> CHR ''-''"
    using ip(1,2) by (cases ip) (auto simp: not_digit_simps)
  have ne: "ip @ r1 \<noteq> []" using ip(2) by simp
  show "parse_number (ip @ r1) =
           Some (to_double False (digits_value (ip @ fp)) (ex - int (length fp)), r3)"
    using h ne ip(2,3) fr ex
    by (simp add: parse_number_def Let_def take_digits_append [OF ip(1) r1])
  show "parse_number (CHR ''-'' # ip @ r1) =
           Some (to_double True (digits_value (ip @ fp)) (ex - int (length fp)), r3)"
    using ip(2,3) fr ex
    by (simp add: parse_number_def Let_def take_digits_append [OF ip(1) r1])
qed

lemma format_digits_exp:
  assumes "\<not> (int (length (decimal s)) \<le> int (length (decimal s)) + t \<and> int (length (decimal s)) + t \<le> 21)"
    and "\<not> (0 < int (length (decimal s)) + t \<and> int (length (decimal s)) + t \<le> 21)"
    and "\<not> (- 6 < int (length (decimal s)) + t \<and> int (length (decimal s)) + t \<le> 0)"
  shows "format_digits s t =
           (if int (length (decimal s)) = 1
            then decimal s @ ''e'' @
                 (if int (length (decimal s)) + t - 1 < 0
                  then CHR ''-'' # decimal (1 - (int (length (decimal s)) + t))
                  else CHR ''+'' # decimal (int (length (decimal s)) + t - 1))
            else hd (decimal s) # ''.'' @ tl (decimal s) @ ''e'' @
                 (if int (length (decimal s)) + t - 1 < 0
                  then CHR ''-'' # decimal (1 - (int (length (decimal s)) + t))
                  else CHR ''+'' # decimal (int (length (decimal s)) + t - 1)))"
  unfolding format_digits_def Let_def by (simp only: assms if_False)

lemma format_parts:
  assumes s: "0 < s" and f: "number_follow rest"
  shows "\<exists>ip r1 fp r2 ex.
           format_digits s t @ rest = ip @ r1
           \<and> list_all isDigit ip \<and> ip \<noteq> [] \<and> \<not> (hd ip = CHR ''0'' \<and> tl ip \<noteq> [])
           \<and> (r1 = [] \<or> \<not> isDigit (hd r1))
           \<and> parse_fraction r1 = Some (fp, r2)
           \<and> parse_exponent r2 = Some (ex, rest)
           \<and> (\<forall>neg. to_double neg (digits_value (ip @ fp)) (ex - int (length fp)) = to_double neg s t)"
proof -
  let ?ds = "decimal s"
  let ?k = "int (length ?ds)"
  let ?n = "?k + t"
  have nn: "0 \<le> s" using s by simp
  have dg: "list_all isDigit ?ds" using nn by (rule decimal_digits)
  have ne: "?ds \<noteq> []" by (rule decimal_nonempty)
  have dv: "digits_value ?ds = s" using nn by (rule decimal_value)
  have hz: "hd ?ds \<noteq> CHR ''0''" using decimal_hd_zero [OF nn] s by auto
  have kpos: "0 < ?k" using ne by simp
  have rd: "rest = [] \<or> \<not> isDigit (hd rest)"
    and rp: "rest = [] \<or> hd rest \<noteq> CHR ''.''"
    and re: "rest = [] \<or> (hd rest \<noteq> CHR ''e'' \<and> hd rest \<noteq> CHR ''E'')"
    using f by (auto simp: number_follow_def)
  consider (int) "?k \<le> ?n" "?n \<le> 21"
    | (point) "\<not> (?k \<le> ?n \<and> ?n \<le> 21)" "0 < ?n" "?n \<le> 21"
    | (small) "\<not> (?k \<le> ?n \<and> ?n \<le> 21)" "\<not> (0 < ?n \<and> ?n \<le> 21)" "- 6 < ?n" "?n \<le> 0"
    | (exp1) "\<not> (?k \<le> ?n \<and> ?n \<le> 21)" "\<not> (0 < ?n \<and> ?n \<le> 21)" "\<not> (- 6 < ?n \<and> ?n \<le> 0)" "?k = 1"
    | (expn) "\<not> (?k \<le> ?n \<and> ?n \<le> 21)" "\<not> (0 < ?n \<and> ?n \<le> 21)" "\<not> (- 6 < ?n \<and> ?n \<le> 0)" "?k \<noteq> 1"
    by linarith
  then show ?thesis
  proof cases
    case int
    let ?z = "replicate (nat t) CHR ''0''"
    let ?ip = "?ds @ ?z"
    have t0: "0 \<le> t" using int(1) by simp
    have fmt: "format_digits s t = ?ip"
      using int by (simp add: format_digits_def Let_def)
    have 1: "list_all isDigit ?ip" using dg zeros_digits by simp
    have 2: "?ip \<noteq> []" using ne by simp
    have 3: "\<not> (hd ?ip = CHR ''0'' \<and> tl ?ip \<noteq> [])" using hz ne by simp
    have 4: "parse_fraction rest = Some ([], rest)" using rp by (rule parse_fraction_none)
    have 5: "parse_exponent rest = Some (0, rest)" using re by (rule parse_exponent_none)
    have "digits_value ?ip = s * 10 ^ nat t"
      by (simp add: digits_value_append dv digits_value_zeros)
    then have 6: "to_double neg (digits_value (?ip @ [])) (0 - int (length ([]::string))) = to_double neg s t" for neg
      using to_double_shift [OF s, of neg "nat t" t] t0 by simp
    show ?thesis
      using fmt 1 2 3 rd 4 5 6 by blast
  next
    case point
    let ?ip = "take (nat ?n) ?ds"
    let ?fp = "drop (nat ?n) ?ds"
    have lt: "?n < ?k" using point(1,3) by linarith
    have fmt: "format_digits s t @ rest = ?ip @ (CHR ''.'' # ?fp @ rest)"
      using point by (simp add: format_digits_def Let_def)
    have 1: "list_all isDigit ?ip" using dg by (auto simp: list_all_iff dest: in_set_takeD)
    have 2: "?ip \<noteq> []" using point(2) ne by simp
    have 3: "\<not> (hd ?ip = CHR ''0'' \<and> tl ?ip \<noteq> [])"
      using hz point(2) ne by (cases ?ds) (auto simp: take_Cons')
    have fd: "list_all isDigit ?fp" using dg by (auto simp: list_all_iff dest: in_set_dropD)
    have fn: "?fp \<noteq> []" using lt point(2) by simp
    have 4: "parse_fraction (CHR ''.'' # ?fp @ rest) = Some (?fp, rest)"
      using fd fn rd by (rule parse_fraction_some)
    have 5: "parse_exponent rest = Some (0, rest)" using re by (rule parse_exponent_none)
    have len: "0 - int (length ?fp) = t" using lt point(2) by simp
    have 6: "to_double neg (digits_value (?ip @ ?fp)) (0 - int (length ?fp)) = to_double neg s t" for neg
      unfolding len by (simp add: dv)
    have 7: "CHR ''.'' # ?fp @ rest = [] \<or> \<not> isDigit (hd (CHR ''.'' # ?fp @ rest))"
      by (simp add: not_digit_simps)
    show ?thesis
      using fmt 1 2 3 7 4 5 6 by blast
  next
    case small
    let ?ip = "''0''"
    let ?fp = "replicate (nat (- ?n)) CHR ''0'' @ ?ds"
    have fmt: "format_digits s t @ rest = ?ip @ (CHR ''.'' # ?fp @ rest)"
      using small by (simp add: format_digits_def Let_def)
    have 1: "list_all isDigit ?ip" by (simp add: not_digit_simps)
    have fd: "list_all isDigit ?fp" using dg zeros_digits by simp
    have fn: "?fp \<noteq> []" using ne by simp
    have 4: "parse_fraction (CHR ''.'' # ?fp @ rest) = Some (?fp, rest)"
      using fd fn rd by (rule parse_fraction_some)
    have 5: "parse_exponent rest = Some (0, rest)" using re by (rule parse_exponent_none)
    have len: "0 - int (length ?fp) = t" using small(4) by simp
    have z0: "digits_value ''0'' = 0" by (simp add: digits_value_def digitValue_def)
    have "digits_value (?ip @ (replicate (nat (- ?n)) CHR ''0'' @ ?ds)) =
          (digits_value ?ip * 10 ^ length (replicate (nat (- ?n)) CHR ''0'')
             + digits_value (replicate (nat (- ?n)) CHR ''0'')) * 10 ^ length ?ds + digits_value ?ds"
      by (simp only: digits_value_append append_assoc [symmetric])
    then have "digits_value (?ip @ ?fp) = s"
      by (simp only: z0 digits_value_zeros dv) simp
    then have 6: "to_double neg (digits_value (?ip @ ?fp)) (0 - int (length ?fp)) = to_double neg s t" for neg
      unfolding len by simp
    have 7: "CHR ''.'' # ?fp @ rest = [] \<or> \<not> isDigit (hd (CHR ''.'' # ?fp @ rest))"
      by (simp add: not_digit_simps)
    have 2: "?ip \<noteq> []" "\<not> (hd ?ip = CHR ''0'' \<and> tl ?ip \<noteq> [])" by simp_all
    show ?thesis
      using fmt 1 2 7 4 5 6 by blast
  next
    case exp1
    let ?ex = "if ?n - 1 < 0 then CHR ''-'' # decimal (1 - ?n) else CHR ''+'' # decimal (?n - 1)"
    have fmt: "format_digits s t @ rest = ?ds @ (CHR ''e'' # ?ex @ rest)"
      using format_digits_exp [OF exp1(1,2,3)] exp1(4) by simp
    have 3: "\<not> (hd ?ds = CHR ''0'' \<and> tl ?ds \<noteq> [])" using hz by simp
    have 4: "parse_fraction (CHR ''e'' # ?ex @ rest) = Some ([], CHR ''e'' # ?ex @ rest)"
      by (rule parse_fraction_none) simp
    have 5: "parse_exponent (CHR ''e'' # ?ex @ rest) = Some (?n - 1, rest)"
      using parse_exponent_plus [of "?n - 1" rest] parse_exponent_minus [of "1 - ?n" rest] rd
      by (cases "?n - 1 < 0") simp_all
    have 6: "to_double neg (digits_value (?ds @ [])) ((?n - 1) - int (length ([]::string))) = to_double neg s t" for neg
      using exp1(4) by (simp add: dv)
    have 7: "CHR ''e'' # ?ex @ rest = [] \<or> \<not> isDigit (hd (CHR ''e'' # ?ex @ rest))"
      by (simp add: not_digit_simps)
    show ?thesis
      using fmt dg ne 3 7 4 5 6 by blast
  next
    case expn
    let ?ex = "if ?n - 1 < 0 then CHR ''-'' # decimal (1 - ?n) else CHR ''+'' # decimal (?n - 1)"
    let ?ip = "[hd ?ds]"
    let ?fp = "tl ?ds"
    have k2: "1 < ?k" using expn(4) kpos by linarith
    have fmt: "format_digits s t @ rest = ?ip @ (CHR ''.'' # ?fp @ (CHR ''e'' # ?ex @ rest))"
      using format_digits_exp [OF expn(1,2,3)] expn(4) by simp
    have 1: "list_all isDigit ?ip" using dg ne by (cases ?ds) simp_all
    have fd: "list_all isDigit ?fp" using dg ne by (cases ?ds) simp_all
    have fn: "?fp \<noteq> []" using k2 by (cases ?ds) auto
    have 4: "parse_fraction (CHR ''.'' # ?fp @ (CHR ''e'' # ?ex @ rest)) = Some (?fp, CHR ''e'' # ?ex @ rest)"
      using fd fn by (rule parse_fraction_some) (simp add: not_digit_simps)
    have 5: "parse_exponent (CHR ''e'' # ?ex @ rest) = Some (?n - 1, rest)"
      using parse_exponent_plus [of "?n - 1" rest] parse_exponent_minus [of "1 - ?n" rest] rd
      by (cases "?n - 1 < 0") simp_all
    have len: "(?n - 1) - int (length ?fp) = t" using ne by (cases ?ds) simp_all
    have "?ip @ ?fp = ?ds" using ne by simp
    then have 6: "to_double neg (digits_value (?ip @ ?fp)) ((?n - 1) - int (length ?fp)) = to_double neg s t" for neg
      unfolding len by (simp add: dv)
    have 7: "CHR ''.'' # ?fp @ (CHR ''e'' # ?ex @ rest) = [] \<or> \<not> isDigit (hd (CHR ''.'' # ?fp @ (CHR ''e'' # ?ex @ rest)))"
      by (simp add: not_digit_simps)
    have 2: "?ip \<noteq> []" "\<not> (hd ?ip = CHR ''0'' \<and> tl ?ip \<noteq> [])" by simp_all
    show ?thesis
      using fmt 1 2 7 4 5 6 by blast
  qed
qed

lemma parse_format:
  assumes "0 < s" and "number_follow rest"
  shows "parse_number (format_digits s t @ rest) = Some (to_double False s t, rest)"
    and "parse_number (CHR ''-'' # format_digits s t @ rest) = Some (to_double True s t, rest)"
proof -
  from format_parts [OF assms, of t] obtain ip r1 fp r2 ex where
    a: "format_digits s t @ rest = ip @ r1"
    and b: "list_all isDigit ip" "ip \<noteq> []" "\<not> (hd ip = CHR ''0'' \<and> tl ip \<noteq> [])"
    and c: "r1 = [] \<or> \<not> isDigit (hd r1)"
    and d: "parse_fraction r1 = Some (fp, r2)"
    and e: "parse_exponent r2 = Some (ex, rest)"
    and f: "\<And>neg. to_double neg (digits_value (ip @ fp)) (ex - int (length fp)) = to_double neg s t"
    by blast
  from parse_number_parts [OF b c d e] f a
  show "parse_number (format_digits s t @ rest) = Some (to_double False s t, rest)"
    and "parse_number (CHR ''-'' # format_digits s t @ rest) = Some (to_double True s t, rest)"
    by simp_all
qed

lemma to_double_magnitude:
  assumes "0 < s" and "magnitude s t = Some (m, e)" and "0 < m"
  shows "to_double False s t = Dyadic m e" and "to_double True s t = Dyadic (- m) e"
  using assms by (simp_all add: to_double_def)

lemma parse_number_print:
  assumes w: "wf_double x" and f: "number_follow rest"
  shows "parse_number (number_to_string x @ rest) = Some (x, rest)"
proof -
  from w obtain m e where x: "x = Dyadic m e" and c: "(m = 0 \<and> e = 0) \<or> is_double \<bar>m\<bar> e"
    by (cases x) (auto simp: wf_double_def)
  show ?thesis
  proof (cases "m = 0")
    case True
    with c have e0: "e = 0" by (auto simp: is_double_def)
    have z: "list_all isDigit ''0''" "''0'' \<noteq> []" "\<not> (hd ''0'' = CHR ''0'' \<and> tl ''0'' \<noteq> [])"
      by (simp_all add: not_digit_simps)
    have rd: "rest = [] \<or> \<not> isDigit (hd rest)"
      and rp: "rest = [] \<or> hd rest \<noteq> CHR ''.''"
      and re: "rest = [] \<or> (hd rest \<noteq> CHR ''e'' \<and> hd rest \<noteq> CHR ''E'')"
      using f by (auto simp: number_follow_def)
    from parse_number_parts(1) [OF z rd parse_fraction_none [OF rp] parse_exponent_none [OF re]]
    have "parse_number (''0'' @ rest) = Some (to_double False (digits_value ''0'') 0, rest)"
      by simp
    moreover have "digits_value ''0'' = 0" by (simp add: digits_value_def digitValue_def)
    ultimately show ?thesis using True e0 x by (simp add: number_to_string_def to_double_def)
  next
    case False
    with c have d: "is_double \<bar>m\<bar> e" by simp
    obtain s t where sh: "shortest \<bar>m\<bar> e = (s, t)" by (cases "shortest \<bar>m\<bar> e")
    from shortest_magnitude [OF d sh] have s: "0 < s" and mg: "magnitude s t = Some (\<bar>m\<bar>, e)"
      by simp_all
    have mp: "0 < \<bar>m\<bar>" using False by simp
    show ?thesis
    proof (cases "m < 0")
      case True
      then have "number_to_string x = CHR ''-'' # format_digits s t"
        using x sh by (simp add: number_to_string_def)
      then show ?thesis
        using parse_format(2) [OF s f, of t] to_double_magnitude(2) [OF s mg mp] True x by simp
    next
      case pos: False
      then have "number_to_string x = format_digits s t"
        using x sh False by (simp add: number_to_string_def)
      then show ?thesis
        using parse_format(1) [OF s f, of t] to_double_magnitude(1) [OF s mg mp] pos x by simp
    qed
  qed
qed

subsection \<open>Strings and values\<close>

lemma hexValue_hexChar: "d < 16 \<Longrightarrow> hexValue (hexChar d) = Some d"
proof -
  assume "d < 16"
  then consider "d < 10" | "10 \<le> d" "d < 16" by linarith
  then show ?thesis
  proof cases
    case 1
    then show ?thesis by (simp add: hexValue_def hexChar_def Let_def)
  next
    case 2
    then show ?thesis by (simp add: hexValue_def hexChar_def Let_def)
  qed
qed

lemma hexValue_zero: "hexValue CHR ''0'' = Some 0"
  by (simp add: hexValue_def)

lemma unicode_escape_ctrl:
  assumes "(of_char c :: nat) < 32"
  shows "unicode_escape CHR ''0'' CHR ''0'' (hexChar (of_char c div 16)) (hexChar (of_char c mod 16)) = Some c"
proof -
  have a: "(of_char c :: nat) div 16 < 16" "(of_char c :: nat) mod 16 < 16"
    using assms by simp_all
  have "char_of (16 * ((of_char c :: nat) div 16) + of_char c mod 16) = c"
    by simp
  then show ?thesis
    by (simp add: unicode_escape_def hexValue_zero hexValue_hexChar [OF a(1)] hexValue_hexChar [OF a(2)])
qed

lemma parse_chars_escape:
  "parse_chars (escape_char c @ cs) = push_char c (parse_chars cs)"
proof -
  consider (dq) "c = dquote" | (bs) "c = backslash" | (b) "c = CHR 0x08" | (t) "c = CHR 0x09"
    | (n) "c = CHR 0x0A" | (f) "c = CHR 0x0C" | (r) "c = CHR 0x0D"
    | (ctrl) "c \<noteq> dquote" "c \<noteq> backslash" "c \<noteq> CHR 0x08" "c \<noteq> CHR 0x09" "c \<noteq> CHR 0x0A"
         "c \<noteq> CHR 0x0C" "c \<noteq> CHR 0x0D" "(of_char c :: nat) < 32"
    | (plain) "c \<noteq> dquote" "c \<noteq> backslash" "c \<noteq> CHR 0x08" "c \<noteq> CHR 0x09" "c \<noteq> CHR 0x0A"
         "c \<noteq> CHR 0x0C" "c \<noteq> CHR 0x0D" "\<not> (of_char c :: nat) < 32"
    by (cases "(of_char c :: nat) < 32") auto
  then show ?thesis
  proof cases
    case dq
    then show ?thesis by (simp add: escape_char_def dquote_def backslash_def unescape_def)
  next
    case bs
    then show ?thesis by (simp add: escape_char_def dquote_def backslash_def unescape_def)
  next
    case b
    then show ?thesis by (simp add: escape_char_def dquote_def backslash_def unescape_def)
  next
    case t
    then show ?thesis by (simp add: escape_char_def dquote_def backslash_def unescape_def)
  next
    case n
    then show ?thesis by (simp add: escape_char_def dquote_def backslash_def unescape_def)
  next
    case f
    then show ?thesis by (simp add: escape_char_def dquote_def backslash_def unescape_def)
  next
    case r
    then show ?thesis by (simp add: escape_char_def dquote_def backslash_def unescape_def)
  next
    case ctrl
    then show ?thesis
      using unicode_escape_ctrl [OF ctrl(8)]
      by (simp add: escape_char_def dquote_def backslash_def)
  next
    case plain
    then show ?thesis by (simp add: escape_char_def)
  qed
qed

lemma parse_chars_print:
  "parse_chars (concat (map escape_char s) @ dquote # rest) = Some (s, rest)"
  by (induction s) (simp_all add: parse_chars_escape push_char_def)

lemma parse_chars_quote:
  "parse_chars (tl (quote s) @ rest) = Some (s, rest)" and "hd (quote s) = dquote"
  by (simp_all add: quote_def parse_chars_print)

lemma ws_simps:
  "\<not> is_json_ws CHR '',''" "\<not> is_json_ws CHR '']''" "\<not> is_json_ws CHR ''}''"
  "\<not> is_json_ws CHR '':''" "is_json_ws CHR '' ''" "is_json_ws (CHR 0x0A)"
  by (simp_all add: is_json_ws_def)

lemma pad_ws: "list_all is_json_ws (pad indent level)"
  by (simp add: pad_def ws_simps list_all_iff)

lemma skip_ws_pad:
  assumes "list_all is_json_ws p" and "cs = [] \<or> \<not> is_json_ws (hd cs)"
  shows "skip_ws (p @ cs) = cs"
proof -
  have "dropWhile is_json_ws cs = cs" using assms(2) by (cases cs) auto
  then show ?thesis using assms(1) by (induction p) (simp_all add: skip_ws_def)
qed

lemma skip_ws_nonws: "\<not> is_json_ws c \<Longrightarrow> skip_ws (c # cs) = c # cs"
  by (simp add: skip_ws_def)

lemma isDigit_nat: "isDigit c \<longleftrightarrow> 48 \<le> (of_char c :: nat) \<and> (of_char c :: nat) \<le> 57"
proof -
  have "(of_char c :: int) = int (of_char c)" by (simp add: of_nat_of_char)
  then show ?thesis unfolding isDigit_def by linarith
qed

lemma digit_value_start: "isDigit c \<Longrightarrow> value_start c"
  by (auto simp: isDigit_nat value_start_def is_json_ws_def)

lemma shortest_pos:
  assumes "0 < m" and "shortest m e = (s, t)"
  shows "0 < s"
proof (cases "search m e")
  case None
  show ?thesis
  proof (cases "0 \<le> e")
    case True
    with None assms(2) have "strip10 (m * 2 ^ nat e) 0 = (s, t)"
      by (simp add: shortest_def)
    moreover have "0 < m * 2 ^ nat e" using assms(1) by simp
    ultimately show ?thesis using strip10_result by blast
  next
    case False
    with None have "shortest m e = (m * 5 ^ nat (- e), e)"
      by (simp add: shortest_def)
    with assms(2) have "s = m * 5 ^ nat (- e)" by (metis prod.inject)
    then show ?thesis using assms(1) by simp
  qed
next
  case (Some ct)
  obtain c t0 where ct: "ct = (c, t0)" by (cases ct)
  from search_SomeD Some ct have c: "0 < c" by blast
  from Some ct assms(2) have "strip10 c t0 = (s, t)"
    by (simp add: shortest_def)
  with c show ?thesis using strip10_result by blast
qed

lemma format_start:
  assumes "0 < s"
  shows "\<exists>c cs. format_digits s t = c # cs \<and> isDigit c"
proof -
  have "number_follow []" by (simp add: number_follow_def)
  from format_parts [OF assms this, of t] obtain ip r1 where
    a: "format_digits s t = ip @ r1" and b: "list_all isDigit ip" "ip \<noteq> []"
    by auto
  then show ?thesis by (cases ip) auto
qed

lemma number_start:
  "\<exists>c cs. stringify_at indent level (JNum x) = c # cs
          \<and> (c = CHR ''-'' \<or> isDigit c \<or> (c = CHR ''n'' \<and> (\<forall>m e. x \<noteq> Dyadic m e)))"
proof (cases x)
  case (Dyadic m e)
  consider (zero) "m = 0" | (neg) "m < 0" | (pos) "0 < m" by linarith
  then show ?thesis
  proof cases
    case zero
    then show ?thesis using Dyadic by (simp add: number_to_string_def not_digit_simps)
  next
    case neg
    then show ?thesis using Dyadic by (simp add: number_to_string_def)
  next
    case pos
    obtain s t where sh: "shortest m e = (s, t)" by (cases "shortest m e")
    from shortest_pos [OF pos sh] have "0 < s" .
    from format_start [OF this, of t] pos sh Dyadic show ?thesis
      by (auto simp: number_to_string_def)
  qed
qed (simp_all add: not_digit_simps)

lemma stringify_start:
  "\<exists>c cs. stringify_at indent level v = c # cs \<and> value_start c"
proof (cases v)
  case (JNum x)
  from number_start [of indent level x] obtain c cs where
    "stringify_at indent level (JNum x) = c # cs"
    "c = CHR ''-'' \<or> isDigit c \<or> c = CHR ''n''"
    by blast
  then show ?thesis
    using JNum by (auto simp: value_start_def is_json_ws_def isDigit_nat)
qed (auto simp: value_start_def is_json_ws_def quote_def dquote_def)

lemma follow_number: "follow rest \<Longrightarrow> number_follow rest"
  by (auto simp: follow_def number_follow_def isDigit_nat is_json_ws_def)

lemma follow_simps:
  "follow []" "follow (CHR '','' # cs)" "follow (CHR '']'' # cs)" "follow (CHR ''}'' # cs)"
  "follow (CHR 0x0A # cs)"
  by (simp_all add: follow_def is_json_ws_def)

lemma follow_pad: "follow (pad indent level @ CHR '']'' # cs)" "follow (pad indent level @ CHR ''}'' # cs)"
  by (simp_all add: follow_def pad_def is_json_ws_def)

lemma parse_value_number:
  assumes "c = CHR ''-'' \<or> isDigit c"
  shows "parse_value (Suc m) (c # cs) =
           (case parse_number (c # cs) of None \<Rightarrow> None | Some (k, rest) \<Rightarrow> Some (JNum k, rest))"
proof -
  have "c \<noteq> CHR ''[''" "c \<noteq> CHR ''{''" "c \<noteq> dquote" "c \<noteq> CHR ''n''" "c \<noteq> CHR ''t''" "c \<noteq> CHR ''f''"
    using assms by (auto simp: isDigit_nat dquote_def)
  then show ?thesis by (simp add: starts_with_def)
qed

lemma parse_value_atom:
  assumes "follow rest"
  shows "parse_value (Suc m) (stringify_at indent level JNull @ rest) = Some (JNull, rest)"
    and "parse_value (Suc m) (stringify_at indent level (JBool b) @ rest) = Some (JBool b, rest)"
    and "wf_double x \<Longrightarrow>
         parse_value (Suc m) (stringify_at indent level (JNum x) @ rest) = Some (JNum x, rest)"
    and "parse_value (Suc m) (stringify_at indent level (JStr s) @ rest) = Some (JStr s, rest)"
proof -
  show "parse_value (Suc m) (stringify_at indent level JNull @ rest) = Some (JNull, rest)"
    by (simp add: starts_with_def dquote_def)
  show "parse_value (Suc m) (stringify_at indent level (JBool b) @ rest) = Some (JBool b, rest)"
    by (simp add: starts_with_def dquote_def)
  show "parse_value (Suc m) (stringify_at indent level (JNum x) @ rest) = Some (JNum x, rest)"
    if w: "wf_double x"
  proof -
    from w obtain k e where x: "x = Dyadic k e" by (cases x) (auto simp: wf_double_def)
    then have t: "stringify_at indent level (JNum x) = number_to_string x" by simp
    obtain c cs where e: "number_to_string x = c # cs" and s: "c = CHR ''-'' \<or> isDigit c"
      using number_start [of indent level x] x unfolding t by auto
    have "parse_number (number_to_string x @ rest) = Some (x, rest)"
      using w assms by (intro parse_number_print follow_number)
    then show ?thesis
      unfolding t using parse_value_number [OF s, of m "cs @ rest"] by (simp add: e)
  qed
  show "parse_value (Suc m) (stringify_at indent level (JStr s) @ rest) = Some (JStr s, rest)"
    using parse_chars_print [of s rest] by (simp add: quote_def dquote_def)
qed

lemma obj_put_last:
  "list_all (\<lambda>k'. k' \<noteq> k \<and> \<not> key_before k k') (map fst kvs) \<Longrightarrow> obj_put k v kvs = kvs @ [(k, v)]"
  by (induction kvs) auto

lemma js_order_snoc:
  "js_order (ks @ [k]) \<Longrightarrow> list_all (\<lambda>k'. k' \<noteq> k \<and> \<not> key_before k k') ks"
  by (induction ks) (auto simp: list_all_iff)

lemma js_order_prefix: "js_order (ks @ ks') \<Longrightarrow> js_order ks"
  by (induction ks) (auto simp: list_all_iff)

lemma foldl_obj_put:
  "js_order (map fst (acc @ kvs)) \<Longrightarrow>
   foldl (\<lambda>acc kv. obj_put (fst kv) (snd kv) acc) acc kvs = acc @ kvs"
proof (induction kvs arbitrary: acc)
  case Nil
  then show ?case by simp
next
  case (Cons kv kvs)
  from Cons.prems have d: "js_order (map fst ((acc @ [kv]) @ kvs))" by simp
  then have "js_order (map fst acc @ [fst kv])"
    using js_order_prefix [of "map fst acc @ [fst kv]" "map fst kvs"] by simp
  then have f: "list_all (\<lambda>k'. k' \<noteq> fst kv \<and> \<not> key_before (fst kv) k') (map fst acc)"
    by (rule js_order_snoc)
  show ?case
    using Cons.IH [OF d] by (simp add: obj_put_last [OF f])
qed

lemma stringify_start_cases:
  obtains c cs where "stringify_at indent level v = c # cs" and "value_start c"
  using stringify_start [of indent level v] by blast

lemma parse_elements_print:
  assumes IH: "\<And>v n level rest. v \<in> set vs \<Longrightarrow> wf_json v \<Longrightarrow> weight v \<le> n \<Longrightarrow> follow rest \<Longrightarrow>
                 parse_value n (stringify_at indent level v @ rest) = Some (v, rest)"
    and "vs \<noteq> []" and "list_all wf_json vs"
    and "sum_list (map (\<lambda>v. Suc (weight v)) vs) \<le> n"
  shows "parse_elements n
           (join_with (CHR '','' # pad indent lv) (map (stringify_at indent lv) vs)
            @ pad indent lv' @ CHR '']'' # rest) = Some (vs, rest)"
  using assms
proof (induction vs arbitrary: n)
  case Nil
  then show ?case by simp
next
  case (Cons v ws)
  from Cons.prems(4) obtain m where n: "n = Suc m" and wv: "weight v \<le> m"
    and ww: "sum_list (map (\<lambda>v. Suc (weight v)) ws) \<le> m"
    by (cases n) auto
  have wfv: "wf_json v" and wfw: "list_all wf_json ws" using Cons.prems(3) by simp_all
  show ?case
  proof (cases "ws = []")
    case True
    let ?tail = "pad indent lv' @ CHR '']'' # rest"
    have p: "parse_value m (stringify_at indent lv v @ ?tail) = Some (v, ?tail)"
      by (rule Cons.prems(1)) (simp_all add: wfv wv follow_pad)
    have s: "skip_ws ?tail = CHR '']'' # rest"
      by (rule skip_ws_pad) (simp_all add: pad_ws ws_simps)
    show ?thesis
      using True p s by (simp add: n)
  next
    case False
    then obtain w ws' where ws: "ws = w # ws'" by (cases ws) auto
    let ?more = "join_with (CHR '','' # pad indent lv) (map (stringify_at indent lv) ws)
                 @ pad indent lv' @ CHR '']'' # rest"
    let ?tail = "CHR '','' # pad indent lv @ ?more"
    have p: "parse_value m (stringify_at indent lv v @ ?tail) = Some (v, ?tail)"
      by (rule Cons.prems(1)) (simp_all add: wfv wv follow_simps)
    obtain c cs where st: "stringify_at indent lv w = c # cs" and vs: "value_start c"
      by (rule stringify_start_cases)
    have hm: "?more \<noteq> [] \<and> \<not> is_json_ws (hd ?more)"
      using st vs by (cases ws') (simp_all add: ws value_start_def)
    have s: "skip_ws (pad indent lv @ ?more) = ?more"
      by (rule skip_ws_pad) (simp_all add: pad_ws hm)
    have ih: "parse_elements m ?more = Some (ws, rest)"
      by (rule Cons.IH) (use Cons.prems(1) False wfw ww in auto)
    have j: "join_with (CHR '','' # pad indent lv) (map (stringify_at indent lv) (v # ws)) @ pad indent lv' @ CHR '']'' # rest
             = stringify_at indent lv v @ ?tail"
      by (simp add: ws)
    show ?thesis
      unfolding j n using p s ih by (simp add: skip_ws_nonws ws_simps)
  qed
qed

lemma parse_member_head:
  assumes p: "parse_value m (stringify_at indent lv v @ tail) = Some (v, tail)"
  shows "parse_members (Suc m) (member_text indent lv (k, v) @ tail) =
           (case skip_ws tail of
              [] \<Rightarrow> None
            | d # r4 \<Rightarrow>
                if d = CHR '','' then
                  (case parse_members m (skip_ws r4) of
                     None \<Rightarrow> None
                   | Some (kvs, rest) \<Rightarrow> Some ((k, v) # kvs, rest))
                else if d = CHR ''}'' then Some ([(k, v)], r4)
                else None)"
proof -
  obtain c cs where st: "stringify_at indent lv v = c # cs" and vs: "value_start c"
    by (rule stringify_start_cases)
  have s2: "skip_ws (stringify_at indent lv v @ tail) = stringify_at indent lv v @ tail"
    using vs by (simp add: st skip_ws_nonws value_start_def)
  have c1: "skip_ws (colon_sep indent @ stringify_at indent lv v @ tail) =
            CHR '':'' # (if indent = 0 then [] else '' '') @ stringify_at indent lv v @ tail"
    by (simp add: colon_sep_def skip_ws_nonws ws_simps)
  have c2: "skip_ws ((if indent = 0 then [] else '' '') @ stringify_at indent lv v @ tail) =
            stringify_at indent lv v @ tail"
    using s2 by (cases "indent = 0") (simp_all add: skip_ws_def ws_simps)
  have pc: "parse_chars (concat (map escape_char k) @ dquote # colon_sep indent @ stringify_at indent lv v @ tail)
            = Some (k, colon_sep indent @ stringify_at indent lv v @ tail)"
    by (rule parse_chars_print)
  show ?thesis
    using pc c1 c2 p by (simp add: member_text_def quote_def)
qed

lemma member_text_start:
  "member_text indent lv kv @ tail \<noteq> [] \<and> \<not> is_json_ws (hd (member_text indent lv kv @ tail))"
  by (simp add: member_text_def quote_def dquote_def is_json_ws_def)

lemma parse_members_print:
  assumes IH: "\<And>kv n level rest. kv \<in> set kvs \<Longrightarrow> wf_json (snd kv) \<Longrightarrow> weight (snd kv) \<le> n \<Longrightarrow>
                 follow rest \<Longrightarrow>
                 parse_value n (stringify_at indent level (snd kv) @ rest) = Some (snd kv, rest)"
    and "kvs \<noteq> []" and "list_all (\<lambda>kv. wf_json (snd kv)) kvs"
    and "sum_list (map (\<lambda>kv. Suc (weight (snd kv))) kvs) \<le> n"
  shows "parse_members n
           (join_with (CHR '','' # pad indent lv) (map (member_text indent lv) kvs)
            @ pad indent lv' @ CHR ''}'' # rest) = Some (kvs, rest)"
  using assms
proof (induction kvs arbitrary: n)
  case Nil
  then show ?case by simp
next
  case (Cons kv ws)
  obtain k v where kv: "kv = (k, v)" by (cases kv)
  from Cons.prems(4) obtain m where n: "n = Suc m" and wv: "weight v \<le> m"
    and ww: "sum_list (map (\<lambda>kv. Suc (weight (snd kv))) ws) \<le> m"
    by (cases n) (auto simp: kv)
  have wfv: "wf_json v" and wfw: "list_all (\<lambda>kv. wf_json (snd kv)) ws"
    using Cons.prems(3) by (simp_all add: kv)
  show ?case
  proof (cases "ws = []")
    case True
    let ?tail = "pad indent lv' @ CHR ''}'' # rest"
    have p: "parse_value m (stringify_at indent lv v @ ?tail) = Some (v, ?tail)"
      using Cons.prems(1) [of kv m ?tail lv] by (simp add: kv wfv wv follow_pad)
    have s: "skip_ws ?tail = CHR ''}'' # rest"
      by (rule skip_ws_pad) (simp_all add: pad_ws ws_simps)
    show ?thesis
      using True parse_member_head [OF p, of k] s by (simp add: n kv)
  next
    case False
    then obtain w ws' where ws: "ws = w # ws'" by (cases ws) auto
    let ?more = "join_with (CHR '','' # pad indent lv) (map (member_text indent lv) ws)
                 @ pad indent lv' @ CHR ''}'' # rest"
    let ?tail = "CHR '','' # pad indent lv @ ?more"
    have p: "parse_value m (stringify_at indent lv v @ ?tail) = Some (v, ?tail)"
      using Cons.prems(1) [of kv m ?tail lv] by (simp add: kv wfv wv follow_simps)
    have hm: "?more \<noteq> [] \<and> \<not> is_json_ws (hd ?more)"
      using member_text_start [of indent lv w] by (cases ws') (simp_all add: ws)
    have s: "skip_ws (pad indent lv @ ?more) = ?more"
      by (rule skip_ws_pad) (simp_all add: pad_ws hm)
    have ih: "parse_members m ?more = Some (ws, rest)"
      by (rule Cons.IH) (use Cons.prems(1) False wfw ww in auto)
    have j: "join_with (CHR '','' # pad indent lv) (map (member_text indent lv) (kv # ws)) @ pad indent lv' @ CHR ''}'' # rest
             = member_text indent lv (k, v) @ ?tail"
      by (simp add: ws kv)
    show ?thesis
      unfolding j n using parse_member_head [OF p, of k] s ih
      by (simp add: skip_ws_nonws ws_simps kv)
  qed
qed

lemma parse_value_print:
  "wf_json v \<Longrightarrow> weight v \<le> n \<Longrightarrow> follow rest \<Longrightarrow>
   parse_value n (stringify_at indent level v @ rest) = Some (v, rest)"
proof (induction v arbitrary: n level rest)
  case JNull
  then show ?case by (cases n) (simp_all add: parse_value_atom del: parse_value.simps stringify_at.simps)
next
  case (JBool b)
  then show ?case by (cases n) (simp_all add: parse_value_atom del: parse_value.simps stringify_at.simps)
next
  case (JNum k)
  then show ?case by (cases n) (simp_all add: parse_value_atom del: parse_value.simps stringify_at.simps)
next
  case (JStr s)
  then show ?case by (cases n) (simp_all add: parse_value_atom del: parse_value.simps stringify_at.simps)
next
  case (JArr vs)
  from JArr.prems(2) obtain m where n: "n = Suc m"
    and w: "sum_list (map (\<lambda>v. Suc (weight v)) vs) \<le> m"
    by (cases n) auto
  show ?case
  proof (cases "vs = []")
    case True
    then show ?thesis by (simp add: n skip_ws_nonws ws_simps)
  next
    case False
    let ?body = "join_with (CHR '','' # pad indent (Suc level)) (map (stringify_at indent (Suc level)) vs)
                 @ pad indent level @ CHR '']'' # rest"
    have e: "parse_elements m ?body = Some (vs, rest)"
      by (rule parse_elements_print) (use JArr.IH JArr.prems(1) False w in auto)
    obtain v0 vs' where vs: "vs = v0 # vs'" using False by (cases vs) auto
    obtain c cs where st: "stringify_at indent (Suc level) v0 = c # cs" and s: "value_start c"
      by (rule stringify_start_cases)
    obtain r' where b: "?body = c # r'"
      using st by (cases vs') (simp_all add: vs)
    have sk: "skip_ws (pad indent (Suc level) @ ?body) = ?body"
      by (rule skip_ws_pad) (use s b in \<open>simp_all add: pad_ws value_start_def\<close>)
    have "parse_value (Suc m) (CHR ''['' # pad indent (Suc level) @ ?body) = Some (JArr vs, rest)"
      using sk e s by (simp add: b value_start_def)
    then show ?thesis using False by (simp add: n)
  qed
next
  case (JObj kvs)
  from JObj.prems(2) obtain m where n: "n = Suc m"
    and w: "sum_list (map (\<lambda>kv. Suc (weight (snd kv))) kvs) \<le> m"
    by (cases n) auto
  show ?case
  proof (cases "kvs = []")
    case True
    then show ?thesis by (simp add: n skip_ws_nonws ws_simps)
  next
    case False
    let ?body = "join_with (CHR '','' # pad indent (Suc level)) (map (member_text indent (Suc level)) kvs)
                 @ pad indent level @ CHR ''}'' # rest"
    have ih: "parse_value n (stringify_at indent level (snd kv) @ rest) = Some (snd kv, rest)"
      if "kv \<in> set kvs" "wf_json (snd kv)" "weight (snd kv) \<le> n" "follow rest" for kv n level rest
      using JObj.IH [of kv "snd kv" n rest level] that by (cases kv) auto
    have e: "parse_members m ?body = Some (kvs, rest)"
      by (rule parse_members_print) (use ih JObj.prems(1) False w in auto)
    obtain kv0 kvs' where kvs: "kvs = kv0 # kvs'" using False by (cases kvs) auto
    obtain r' where b: "?body = dquote # r'"
      by (cases kvs') (simp_all add: kvs member_text_def quote_def)
    have sk: "skip_ws (pad indent (Suc level) @ ?body) = ?body"
      by (rule skip_ws_pad) (simp_all add: pad_ws b dquote_def is_json_ws_def)
    have f: "foldl (\<lambda>acc kv. obj_put (fst kv) (snd kv) acc) [] kvs = kvs"
      using foldl_obj_put [of "[]" kvs] JObj.prems(1) by simp
    have "parse_value (Suc m) (CHR ''{'' # pad indent (Suc level) @ ?body) = Some (JObj kvs, rest)"
      using sk e f by (simp add: b dquote_def)
    moreover have "(\<lambda>kv. quote (fst kv) @ colon_sep indent @ stringify_at indent (Suc level) (snd kv))
                     = member_text indent (Suc level)"
      by (rule ext) (simp add: member_text_def)
    then have "stringify_at indent level (JObj kvs) @ rest = CHR ''{'' # pad indent (Suc level) @ ?body"
      using False by simp
    ultimately show ?thesis by (simp only: n)
  qed
qed

lemma length_join_with:
  "sep \<noteq> [] \<Longrightarrow> sum_list (map length xs) + length xs \<le> length (join_with sep xs) + 1"
proof (induction sep xs rule: join_with.induct)
  case (3 sep s t ss)
  then have "1 \<le> length sep" by (cases sep) auto
  with 3 show ?case by simp
qed simp_all

lemma weight_items:
  assumes "\<And>x. x \<in> set xs \<Longrightarrow> w x \<le> 2 * length (txt x)"
  shows "sum_list (map (\<lambda>x. Suc (w x)) xs) \<le> 2 * length (join_with (CHR '','' # p) (map txt xs)) + 2"
proof -
  have "sum_list (map (\<lambda>x. Suc (w x)) xs) \<le> sum_list (map (\<lambda>x. Suc (2 * length (txt x))) xs)"
    by (rule sum_list_mono) (simp add: assms)
  also have "\<dots> = length xs + 2 * sum_list (map length (map txt xs))"
    by (induction xs) simp_all
  also have "\<dots> \<le> 2 * (sum_list (map length (map txt xs)) + length (map txt xs))"
    by simp
  also have "\<dots> \<le> 2 * (length (join_with (CHR '','' # p) (map txt xs)) + 1)"
    using length_join_with [of "CHR '','' # p" "map txt xs"] by simp
  finally show ?thesis by simp
qed

lemma weight_le_length: "weight v \<le> 2 * length (stringify_at indent level v)"
proof (induction v arbitrary: level)
  case (JArr vs)
  show ?case
  proof (cases "vs = []")
    case True
    then show ?thesis by simp
  next
    case False
    have "sum_list (map (\<lambda>x. Suc (weight x)) vs)
          \<le> 2 * length (join_with (CHR '','' # pad indent (Suc level))
                          (map (stringify_at indent (Suc level)) vs)) + 2"
      by (rule weight_items) (rule JArr.IH)
    then show ?thesis using False by simp
  qed
next
  case (JObj kvs)
  show ?case
  proof (cases "kvs = []")
    case True
    then show ?thesis by simp
  next
    case False
    have i: "weight (snd kv) \<le> 2 * length (member_text indent (Suc level) kv)" if "kv \<in> set kvs" for kv
    proof -
      have "weight (snd kv) \<le> 2 * length (stringify_at indent (Suc level) (snd kv))"
        using JObj.IH [of kv "snd kv" "Suc level"] that by (cases kv) auto
      then show ?thesis by (simp add: member_text_def)
    qed
    have "sum_list (map (\<lambda>kv. Suc (weight (snd kv))) kvs)
          \<le> 2 * length (join_with (CHR '','' # pad indent (Suc level))
                          (map (member_text indent (Suc level)) kvs)) + 2"
      by (rule weight_items) (rule i)
    moreover have "(\<lambda>kv. quote (fst kv) @ colon_sep indent @ stringify_at indent (Suc level) (snd kv))
                     = member_text indent (Suc level)"
      by (rule ext) (simp add: member_text_def)
    ultimately show ?thesis using False by simp
  qed
next
  case (JNum k)
  obtain c cs where "stringify_at indent level (JNum k) = c # cs"
    by (rule stringify_start_cases)
  then show ?case by simp
qed (simp_all add: quote_def)

lemma json_parse_stringify:
  assumes "wf_json v"
  shows "json_parse (json_stringify indent v) = Some v"
proof -
  let ?text = "stringify_at indent 0 v"
  obtain c cs where st: "?text = c # cs" and s: "value_start c"
    by (rule stringify_start_cases)
  have sk: "skip_ws ?text = ?text"
    using s by (simp add: st skip_ws_nonws value_start_def)
  have w: "weight v \<le> 2 * length ?text + 2"
    using weight_le_length [of v indent 0] by simp
  have "parse_value (2 * length ?text + 2) (?text @ []) = Some (v, [])"
    using assms w by (rule parse_value_print) (simp add: follow_simps)
  then have pv: "parse_value (2 * length ?text + 2) ?text = Some (v, [])"
    by (simp del: parse_value.simps)
  show ?thesis
    unfolding json_parse_def json_stringify_def sk pv by (simp add: skip_ws_def)
qed

section \<open>Properties of the document store and the collection routes\<close>

lemma ensureDataDir_frame:
  "files (snd (ensureDataDir \<sigma>)) = files \<sigma> \<and> fault (snd (ensureDataDir \<sigma>)) = fault \<sigma>"
  by (simp add: ensureDataDir_def fs_access_dir_def fs_mkdir_def split: option.splits)

lemma ensureDataDir_ok:
  "fst (ensureDataDir \<sigma>) = Inr () \<Longrightarrow> dirExists (snd (ensureDataDir \<sigma>))"
  by (auto simp: ensureDataDir_def fs_access_dir_def fs_mkdir_def split: option.splits if_splits)

lemma ensureDataDir_fails_iff:
  "isl (fst (ensureDataDir \<sigma>)) \<longleftrightarrow> fs_access_dir \<sigma> \<noteq> None \<and> fault \<sigma> MkDir \<noteq> None"
  by (auto simp: ensureDataDir_def fs_mkdir_def split: option.splits)


lemma readJsonFile_missing:
  assumes "fst (ensureDataDir \<sigma>) = Inr ()" and "files \<sigma> p = None" and "fault \<sigma> (Access p) = None"
  shows "fst (readJsonFile parse p \<sigma>) = Inr (JArr [])"
proof -
  obtain \<sigma>' where e: "ensureDataDir \<sigma> = (Inr (), \<sigma>')"
    using assms(1) by (cases "ensureDataDir \<sigma>") auto
  have "files \<sigma>' p = None" "fault \<sigma>' (Access p) = None"
    using ensureDataDir_frame [of \<sigma>] e assms by auto
  then have "fs_access p \<sigma>' = Some ENOENT"
    by (simp add: fs_access_def)
  then show ?thesis
    by (simp add: readJsonFile_def readJsonFile_try_def e)
qed

lemma readJsonFile_failure:
  assumes "fst (readJsonFile_try parse p \<sigma>) = Inl err" and "err \<noteq> SystemError ENOENT"
  shows "fst (readJsonFile parse p \<sigma>) = Inl err"
  using assms by (cases "readJsonFile_try parse p \<sigma>") (auto simp: readJsonFile_def)





lemma paths_app:
  "substationsPath ''/app'' = ''/app/app/data/substations.json''"
  "polygonsPath ''/app'' = ''/app/app/data/component_polygons.json''"
  by code_simp+





lemma writeComponentPolygons_result:
  "writeComponentPolygons stringify cwd v \<sigma> =
     (if isl (fst (ensureDataDir \<sigma>)) then ensureDataDir \<sigma>
      else case fault \<sigma> (WriteFile (polygonsPath cwd)) of
             Some e \<Rightarrow> (Inl (SystemError e), snd (ensureDataDir \<sigma>))
           | None \<Rightarrow> (Inr (), snd (ensureDataDir \<sigma>)
                 \<lparr>files := (files \<sigma>)(polygonsPath cwd \<mapsto> stringify 2 v)\<rparr>))"
proof (cases "ensureDataDir \<sigma>")
  case (Pair r \<sigma>')
  show ?thesis
  proof (cases r)
    case (Inl err)
    then show ?thesis by (simp add: writeComponentPolygons_def Pair)
  next
    case (Inr u)
    then have ok: "fst (ensureDataDir \<sigma>) = Inr ()" by (simp add: Pair)
    have "dirExists \<sigma>'" "files \<sigma>' = files \<sigma>" "fault \<sigma>' = fault \<sigma>"
      using ensureDataDir_ok [OF ok] ensureDataDir_frame [of \<sigma>] by (simp_all add: Pair)
    then show ?thesis
      by (simp add: writeComponentPolygons_def Pair Inr fs_writeFile_def split: option.splits)
  qed
qed

lemma not_isl_unit: "\<not> isl r \<longleftrightarrow> r = Inr ()" for r :: "error + unit"
  by (cases r) simp_all


lemma writeComponentPolygons_ok_iff:
  "fst (writeComponentPolygons stringify cwd v \<sigma>) = Inr () \<longleftrightarrow>
     fst (ensureDataDir \<sigma>) = Inr () \<and> fault \<sigma> (WriteFile (polygonsPath cwd)) = None"
  by (cases "fst (ensureDataDir \<sigma>)")
     (auto simp: writeComponentPolygons_result split: option.splits)








lemma polygons_POST_fst:
  "fst (polygons_POST parse stringify cwd request \<sigma>) =
     (case parse request of
        None \<Rightarrow> \<lparr>status = 500, headers = [], body = message ''Error writing polygons file''\<rparr>
      | Some b \<Rightarrow>
          if fst (writeComponentPolygons stringify cwd b \<sigma>) = Inr ()
          then \<lparr>status = 200, headers = [], body = message ''Polygons updated successfully''\<rparr>
          else \<lparr>status = 500, headers = [], body = message ''Error writing polygons file''\<rparr>)"
  by (auto simp: polygons_POST_def split: option.splits prod.splits sum.splits)

lemma polygons_POST_snd:
  "parse request = Some b \<Longrightarrow>
   snd (polygons_POST parse stringify cwd request \<sigma>) = snd (writeComponentPolygons stringify cwd b \<sigma>)"
  by (auto simp: polygons_POST_def split: option.splits prod.splits sum.splits)


lemma writeComponentPolygons_files:
  "fst (writeComponentPolygons stringify cwd b \<sigma>) = Inr () \<Longrightarrow>
   files (snd (writeComponentPolygons stringify cwd b \<sigma>)) (polygonsPath cwd) = Some (stringify 2 b)"
  by (simp add: writeComponentPolygons_ok_iff) (simp add: writeComponentPolygons_result)





theorem post_other_blank_persisted:
  "fst (polygons_POST json_parse json_stringify ''/app''
          (json_stringify 0 (JArr [polygon_p1, polygon_other])) fs_one_polygon) =
     \<lparr>status = 200, headers = [], body = message ''Polygons updated successfully''\<rparr>
   \<and> files fs_one_polygon ''/app/app/data/component_polygons.json'' =
       Some (json_stringify 2 (JArr [polygon_p1]))
   \<and> files (snd (polygons_POST json_parse json_stringify ''/app''
                  (json_stringify 0 (JArr [polygon_p1, polygon_other])) fs_one_polygon))
         ''/app/app/data/component_polygons.json'' =
       Some (json_stringify 2 (JArr [polygon_p1, polygon_other]))
   \<and> json_stringify 2 (JArr [polygon_p1, polygon_other]) \<noteq> json_stringify 2 (JArr [polygon_p1])"
proof -
  have "wf_json (JArr [polygon_p1, polygon_other])"
    by code_simp
  then have p: "json_parse (json_stringify 0 (JArr [polygon_p1, polygon_other])) =
           Some (JArr [polygon_p1, polygon_other])"
    by (rule json_parse_stringify)
  have e: "fst (ensureDataDir fs_one_polygon) = Inr ()"
    by (simp add: ensureDataDir_def fs_access_dir_def fs_one_polygon_def no_fault_def)
  have f: "fault fs_one_polygon c = None" for c
    by (simp add: fs_one_polygon_def no_fault_def)
  have w: "fst (writeComponentPolygons json_stringify ''/app'' v fs_one_polygon) = Inr ()" for v
    by (simp add: writeComponentPolygons_ok_iff e f)
  have 1: "fst (polygons_POST json_parse json_stringify ''/app''
          (json_stringify 0 (JArr [polygon_p1, polygon_other])) fs_one_polygon) =
     \<lparr>status = 200, headers = [], body = message ''Polygons updated successfully''\<rparr>"
    by (simp add: polygons_POST_fst p w)
  have 2: "files fs_one_polygon ''/app/app/data/component_polygons.json'' =
       Some (json_stringify 2 (JArr [polygon_p1]))"
    by (simp add: fs_one_polygon_def)
  have 3: "files (snd (polygons_POST json_parse json_stringify ''/app''
                  (json_stringify 0 (JArr [polygon_p1, polygon_other])) fs_one_polygon))
         ''/app/app/data/component_polygons.json'' =
       Some (json_stringify 2 (JArr [polygon_p1, polygon_other]))"
    using writeComponentPolygons_files [OF w, of "JArr [polygon_p1, polygon_other]"]
    by (simp add: polygons_POST_snd [where parse = json_parse, OF p] paths_app)
  have 4: "json_stringify 2 (JArr [polygon_p1, polygon_other]) \<noteq> json_stringify 2 (JArr [polygon_p1])"
    by code_simp
  from 1 2 3 4 show ?thesis by blast
qed

text \<open>
  Claim C5, as the code has it. The save handler of the dialog refuses the label \<open>Other\<close> with
  blank additional information before it sends any request: it ends with the toast
  \<open>Additional Info Required\<close> (or returns at once when no polygon or substation is selected),
  and the stored collections are as they were. The route itself does not validate, as the
  example before this theorem shows.
\<close>

theorem save_handler_rejects_blank_other:
  assumes "selectedComponent ui = ''Other''" and "trim (dialogAdditionalInfo ui) = []"
  shows "snd (handleSavePolygon parse stringify cwd uuid now ui \<sigma>) = \<sigma>
       \<and> (fst (handleSavePolygon parse stringify cwd uuid now ui \<sigma>) = Toast ''Additional Info Required''
          \<or> fst (handleSavePolygon parse stringify cwd uuid now ui \<sigma>) = Returned)
       \<and> (dialogPolygon ui \<noteq> None \<and> selectedSubstation ui \<noteq> None \<longrightarrow>
            handleSavePolygon parse stringify cwd uuid now ui \<sigma> =
              (Toast ''Additional Info Required'', \<sigma>))"
  using assms by (auto simp: handleSavePolygon_def split: option.splits)

theorem save_handler_rejects_blank_other_witness:
  "handleSavePolygon json_parse json_stringify ''/app'' ''u-1'' ''2024-02-02T00:00:00Z''
     ui_other_blank fs_one_polygon = (Toast ''Additional Info Required'', fs_one_polygon)"
proof -
  have a: "selectedComponent ui_other_blank = ''Other''"
    by (simp add: ui_other_blank_def)
  have b: "trim (dialogAdditionalInfo ui_other_blank) = []"
    by (simp add: ui_other_blank_def trim_def isWhiteSpace_def)
  have c: "dialogPolygon ui_other_blank \<noteq> None \<and> selectedSubstation ui_other_blank \<noteq> None"
    by (simp add: ui_other_blank_def)
  from save_handler_rejects_blank_other [OF a b] c show ?thesis by blast
qed

end
